theory Spec2Isabelle
  imports Main "HOL-Library.Word"
begin

unbundle bit_operations_syntax

section \<open>C strings\<close>

text \<open>
  A \<^verbatim>\<open>char *\<close> that points to a string is modelled by the list of the bytes that stand
  before its terminating NUL byte; a pointer that may be \<^verbatim>\<open>NULL\<close> is a \<open>string option\<close>.
  A list is such a C string when no NUL byte occurs in it (\<open>cstring\<close>). Reading the
  byte at index \<open>length s\<close> gives the terminator.
\<close>

definition NUL :: char where
  "NUL = CHR 0x00"

definition cstring :: "string \<Rightarrow> bool" where
  "cstring s \<longleftrightarrow> NUL \<notin> set s"

definition char_at :: "string \<Rightarrow> nat \<Rightarrow> char" where
  "char_at s i = (if i < length s then s ! i else NUL)"

definition strlen :: "string \<Rightarrow> nat" where
  "strlen s = length s"

text \<open>
  \<^verbatim>\<open>strcmp\<close> and \<^verbatim>\<open>strncmp\<close> compare byte by byte, bytes read as unsigned; the result is
  the difference of the first two bytes that differ, the terminator counting as 0.
\<close>

fun strcmp :: "string \<Rightarrow> string \<Rightarrow> int" where
  "strcmp [] [] = 0"
| "strcmp [] (y # ys) = - int (of_char y)"
| "strcmp (x # xs) [] = int (of_char x)"
| "strcmp (x # xs) (y # ys) =
     (if x = y then strcmp xs ys else int (of_char x) - int (of_char y))"

fun strncmp :: "string \<Rightarrow> string \<Rightarrow> nat \<Rightarrow> int" where
  "strncmp a b 0 = 0"
| "strncmp [] [] (Suc n) = 0"
| "strncmp [] (y # ys) (Suc n) = - int (of_char y)"
| "strncmp (x # xs) [] (Suc n) = int (of_char x)"
| "strncmp (x # xs) (y # ys) (Suc n) =
     (if x = y then strncmp xs ys n else int (of_char x) - int (of_char y))"

text \<open>
  \<^verbatim>\<open>g_strdup\<close> copies a string. \<^verbatim>\<open>g_strndup (str, n)\<close> allocates \<open>n + 1\<close> bytes, whatever the
  length of \<open>str\<close>, and copies at most \<open>n\<close> bytes of it; a request for \<open>2 ^ 63\<close> bytes or
  more is never met (it is above \<^verbatim>\<open>PTRDIFF_MAX\<close>, and for \<open>n = 2 ^ 64 - 1\<close> the size wraps
  to 0 and the copy goes through \<^verbatim>\<open>NULL\<close>): GLib aborts the process and the call does not
  return, which is the result \<open>None\<close>. An \<^verbatim>\<open>int\<close> passed for a \<^verbatim>\<open>gsize\<close> is converted modulo
  \<open>2 ^ 64\<close>. Memory exhaustion on smaller requests is not modelled.
\<close>

definition g_strdup :: "string \<Rightarrow> string" where
  "g_strdup str = str"

definition g_strndup :: "string \<Rightarrow> nat \<Rightarrow> string option" where
  "g_strndup str n = (if 2 ^ 63 \<le> n + 1 then None else Some (take n str))"

definition gsize_of_int :: "int \<Rightarrow> nat" where
  "gsize_of_int i = nat (i mod 2 ^ 64)"

section \<open>The mount specification\<close>

text \<open>
  \<^verbatim>\<open>GMountSpecItem\<close> and \<^verbatim>\<open>GMountSpec\<close>: the structures are declared in the header, which
  is not among the sources; the fields are those the code reads and writes. The items
  array (a \<^verbatim>\<open>GArray\<close>) is a list. Keys and values of items are never \<^verbatim>\<open>NULL\<close>
  (\<^verbatim>\<open>add_item\<close> refuses them); the mount prefix can be (\<^verbatim>\<open>g_mount_spec_hash\<close> and
  \<^verbatim>\<open>g_mount_spec_equal\<close> test it).
\<close>

record GMountSpecItem =
  item_key :: string
  item_value :: string

record GMountSpec =
  ref_count :: int
  items :: "GMountSpecItem list"
  mount_prefix :: "string option"
  is_unique :: bool

definition item_compare :: "GMountSpecItem \<Rightarrow> GMountSpecItem \<Rightarrow> int" where
  "item_compare a b = strcmp (item_key a) (item_key b)"

text \<open>
  \<^verbatim>\<open>g_array_sort\<close> (GLib) sorts the array by the comparison function; GLib documents the
  sort as stable. It is modelled by a stable insertion sort.
\<close>

fun sort_insert :: "('a \<Rightarrow> 'a \<Rightarrow> int) \<Rightarrow> 'a \<Rightarrow> 'a list \<Rightarrow> 'a list" where
  "sort_insert compare_func x [] = [x]"
| "sort_insert compare_func x (y # ys) =
     (if compare_func x y \<le> 0 then x # y # ys else y # sort_insert compare_func x ys)"

definition g_array_sort :: "('a \<Rightarrow> 'a \<Rightarrow> int) \<Rightarrow> 'a list \<Rightarrow> 'a list" where
  "g_array_sort compare_func array = foldr (sort_insert compare_func) array []"

text \<open>\<^verbatim>\<open>add_item\<close>: appends an item; returns at once when the key or the value is \<^verbatim>\<open>NULL\<close>.\<close>

definition add_item :: "GMountSpec \<Rightarrow> string option \<Rightarrow> string option \<Rightarrow> GMountSpec" where
  "add_item spec k v =
     (case k of
        None \<Rightarrow> spec
      | Some k' \<Rightarrow>
          (case v of
             None \<Rightarrow> spec
           | Some v' \<Rightarrow>
               spec\<lparr>items := items spec @ [\<lparr>item_key = g_strdup k', item_value = v'\<rparr>]\<rparr>))"

text \<open>
  \<^verbatim>\<open>g_mount_spec_set_with_len\<close>: the loop replaces the value of the first item whose key
  compares equal and returns; \<open>set_existing\<close> is that loop, with \<open>None\<close> when it runs to
  the end of the array. Otherwise the item is appended and the array sorted again. The
  result is the specification after the call, and \<open>None\<close> when the call does not return
  because \<^verbatim>\<open>g_strndup\<close> aborts the process: \<open>value_len\<close> is converted to \<^verbatim>\<open>gsize\<close>, so that
  happens for every \<open>value_len\<close> below \<open>- 1\<close>.
\<close>

fun set_existing :: "GMountSpecItem list \<Rightarrow> string \<Rightarrow> string \<Rightarrow> GMountSpecItem list option" where
  "set_existing [] k value_copy = None"
| "set_existing (item # rest) k value_copy =
     (if strcmp (item_key item) k = 0 then Some (item\<lparr>item_value := value_copy\<rparr> # rest)
      else map_option ((#) item) (set_existing rest k value_copy))"

definition g_mount_spec_set_with_len ::
    "GMountSpec \<Rightarrow> string option \<Rightarrow> string option \<Rightarrow> int \<Rightarrow> GMountSpec option" where
  "g_mount_spec_set_with_len spec k v value_len =
     (case k of
        None \<Rightarrow> Some spec
      | Some k' \<Rightarrow>
          (case v of
             None \<Rightarrow> Some spec
           | Some v' \<Rightarrow>
               (case (if value_len = - 1 then Some (g_strdup v')
                      else g_strndup v' (gsize_of_int value_len)) of
                  None \<Rightarrow> None
                | Some value_copy \<Rightarrow>
                    (case set_existing (items spec) k' value_copy of
                       Some replaced \<Rightarrow> Some (spec\<lparr>items := replaced\<rparr>)
                     | None \<Rightarrow>
                         (let spec' = add_item spec (Some k') (Some value_copy)
                          in Some (spec'\<lparr>items := g_array_sort item_compare (items spec')\<rparr>))))))"

text \<open>
  \<^verbatim>\<open>g_mount_spec_set\<close> passes \<open>- 1\<close> for \<open>value_len\<close>: the value is copied by \<^verbatim>\<open>g_strdup\<close> and
  the call returns, so the specification after it is always that of the first branch.
\<close>

definition g_mount_spec_set :: "GMountSpec \<Rightarrow> string option \<Rightarrow> string option \<Rightarrow> GMountSpec" where
  "g_mount_spec_set spec k v =
     (case g_mount_spec_set_with_len spec k v (- 1) of
        Some spec' \<Rightarrow> spec'
      | None \<Rightarrow> spec)"

definition g_mount_spec_new :: "string option \<Rightarrow> GMountSpec" where
  "g_mount_spec_new type' =
     (let spec = \<lparr>ref_count = 1, items = [], mount_prefix = Some (g_strdup ''/''),
                  is_unique = False\<rparr>
      in if type' \<noteq> None then g_mount_spec_set spec (Some ''type'') type' else spec)"

text \<open>\<^verbatim>\<open>g_mount_spec_new_from_data\<close>: takes the array and the prefix as they are, and sorts.\<close>

definition g_mount_spec_new_from_data :: "GMountSpecItem list \<Rightarrow> string option \<Rightarrow> GMountSpec" where
  "g_mount_spec_new_from_data items' mount_prefix' =
     (let spec = \<lparr>ref_count = 1, items = items',
                  mount_prefix = (if mount_prefix' = None then Some (g_strdup ''/'')
                                  else mount_prefix'),
                  is_unique = False\<rparr>
      in spec\<lparr>items := g_array_sort item_compare (items spec)\<rparr>)"

text \<open>\<^verbatim>\<open>g_mount_spec_set_mount_prefix\<close>: \<^verbatim>\<open>g_strdup (NULL)\<close> is \<^verbatim>\<open>NULL\<close>.\<close>

definition g_mount_spec_set_mount_prefix :: "GMountSpec \<Rightarrow> string option \<Rightarrow> GMountSpec" where
  "g_mount_spec_set_mount_prefix spec mount_prefix' =
     spec\<lparr>mount_prefix := map_option g_strdup mount_prefix'\<rparr>"

definition g_mount_spec_copy :: "GMountSpec \<Rightarrow> GMountSpec" where
  "g_mount_spec_copy spec =
     foldl (\<lambda>copy item. g_mount_spec_set copy (Some (item_key item)) (Some (item_value item)))
       (g_mount_spec_set_mount_prefix (g_mount_spec_new None) (mount_prefix spec))
       (items spec)"

section \<open>Equality, hash and matching\<close>

text \<open>
  \<^verbatim>\<open>items_equal\<close>: the lengths are compared first, then the items pairwise, keys and
  values by \<^verbatim>\<open>strcmp\<close>.
\<close>

fun items_equal_loop :: "GMountSpecItem list \<Rightarrow> GMountSpecItem list \<Rightarrow> bool" where
  "items_equal_loop (item_a # a) (item_b # b) =
     (if strcmp (item_key item_a) (item_key item_b) \<noteq> 0 then False
      else if strcmp (item_value item_a) (item_value item_b) \<noteq> 0 then False
      else items_equal_loop a b)"
| "items_equal_loop a b = True"

definition items_equal :: "GMountSpecItem list \<Rightarrow> GMountSpecItem list \<Rightarrow> bool" where
  "items_equal a b = (if length a \<noteq> length b then False else items_equal_loop a b)"

text \<open>
  \<^verbatim>\<open>path_has_prefix\<close> (static). The prefix may be \<^verbatim>\<open>NULL\<close>.
\<close>

definition path_has_prefix :: "string \<Rightarrow> string option \<Rightarrow> bool" where
  "path_has_prefix path prefix =
     (case prefix of
        None \<Rightarrow> True
      | Some pfx \<Rightarrow>
          (let prefix_len = strlen pfx in
           if strncmp path pfx prefix_len = 0 \<and>
              (prefix_len = 0 \<or>
               char_at pfx (prefix_len - 1) = CHR ''/'' \<or>
               char_at path prefix_len = NUL \<or>
               char_at path prefix_len = CHR ''/'')
           then True
           else False))"

text \<open>
  \<^verbatim>\<open>g_str_hash\<close> (GLib): the hash starts at 5381 and is updated, for each byte \<open>c\<close> read as
  a \<^verbatim>\<open>signed char\<close>, to \<open>(hash << 5) + hash + c\<close>, in 32 bits. \<^verbatim>\<open>guint\<close> is a 32-bit word.
\<close>

definition signed_char :: "char \<Rightarrow> int" where
  "signed_char c = (if of_char c < (128::int) then of_char c else of_char c - 256)"

definition g_str_hash :: "string \<Rightarrow> 32 word" where
  "g_str_hash v = foldl (\<lambda>h c. push_bit 5 h + h + word_of_int (signed_char c)) 5381 v"

definition g_mount_spec_hash :: "GMountSpec \<Rightarrow> 32 word" where
  "g_mount_spec_hash mount =
     foldl (\<lambda>hash item. hash XOR g_str_hash (item_value item))
       (case mount_prefix mount of
          None \<Rightarrow> 0
        | Some p \<Rightarrow> 0 XOR g_str_hash p)
       (items mount)"

text \<open>
  \<^verbatim>\<open>g_mount_spec_equal\<close>: the two prefix pointers are compared first; in a model of
  values, equal pointers are equal values (both \<^verbatim>\<open>NULL\<close>, or one and the same string).
\<close>

definition g_mount_spec_equal :: "GMountSpec \<Rightarrow> GMountSpec \<Rightarrow> bool" where
  "g_mount_spec_equal mount1 mount2 \<longleftrightarrow>
     items_equal (items mount1) (items mount2) \<and>
     (mount_prefix mount1 = mount_prefix mount2 \<or>
      (case (mount_prefix mount1, mount_prefix mount2) of
         (Some p1, Some p2) \<Rightarrow> strcmp p1 p2 = 0
       | _ \<Rightarrow> False))"

definition g_mount_spec_match_with_path :: "GMountSpec \<Rightarrow> GMountSpec \<Rightarrow> string \<Rightarrow> bool" where
  "g_mount_spec_match_with_path mount spec path =
     (if items_equal (items mount) (items spec) \<and> path_has_prefix path (mount_prefix mount)
      then True else False)"

fun g_mount_spec_get_loop :: "GMountSpecItem list \<Rightarrow> string \<Rightarrow> string option" where
  "g_mount_spec_get_loop [] k = None"
| "g_mount_spec_get_loop (item # rest) k =
     (if strcmp (item_key item) k = 0 then Some (item_value item)
      else g_mount_spec_get_loop rest k)"

definition g_mount_spec_get :: "GMountSpec \<Rightarrow> string \<Rightarrow> string option" where
  "g_mount_spec_get spec k = g_mount_spec_get_loop (items spec) k"

definition g_mount_spec_get_type :: "GMountSpec \<Rightarrow> string option" where
  "g_mount_spec_get_type spec = g_mount_spec_get spec ''type''"

text \<open>
  Every string of a well-formed specification is a C string: no list holds a NUL byte.
\<close>

definition item_cstrings :: "GMountSpecItem \<Rightarrow> bool" where
  "item_cstrings item \<longleftrightarrow> cstring (item_key item) \<and> cstring (item_value item)"

definition spec_cstrings :: "GMountSpec \<Rightarrow> bool" where
  "spec_cstrings spec \<longleftrightarrow>
     list_all item_cstrings (items spec) \<and>
     (case mount_prefix spec of None \<Rightarrow> True | Some p \<Rightarrow> cstring p)"

section \<open>The order of the keys\<close>

text \<open>
  The byte-wise lexicographic order on strings, as the spec words it, to compare with the
  order \<^verbatim>\<open>strcmp\<close> computes; and the two forms of the sort invariant of an items array.
\<close>

fun bytewise_less :: "string \<Rightarrow> string \<Rightarrow> bool" where
  "bytewise_less [] [] = False"
| "bytewise_less [] (y # ys) = True"
| "bytewise_less (x # xs) [] = False"
| "bytewise_less (x # xs) (y # ys) =
     ((of_char x :: nat) < of_char y \<or> (x = y \<and> bytewise_less xs ys))"

definition keys_sorted :: "GMountSpecItem list \<Rightarrow> bool" where
  "keys_sorted xs \<longleftrightarrow>
     sorted_wrt (\<lambda>a b. bytewise_less (item_key a) (item_key b) \<or> item_key a = item_key b) xs"

definition keys_strictly_sorted :: "GMountSpecItem list \<Rightarrow> bool" where
  "keys_strictly_sorted xs \<longleftrightarrow>
     sorted_wrt (\<lambda>a b. bytewise_less (item_key a) (item_key b)) xs"

section \<open>The text encoding\<close>

text \<open>
  Modelled from the spec: the escaping of the text codec ("a URI-style escaping that
  protects at minimum \<open>=\<close> and \<open>,\<close> delimiters and any control/reserved characters") is done
  by GLib's \<^verbatim>\<open>g_uri_escape_string\<close> and \<^verbatim>\<open>g_uri_unescape_string\<close>, and the splitting by
  GLib's \<^verbatim>\<open>g_strsplit\<close>; GLib is not part of the repository. They are modelled as the GLib
  reference documents them.

  \<^verbatim>\<open>g_uri_escape_string (unescaped, reserved_chars_allowed, allow_utf8)\<close> keeps the
  unreserved characters (ASCII letters and digits, \<open>-\<close>, \<open>.\<close>, \<open>_\<close>, \<open>~\<close>), the characters of
  \<open>reserved_chars_allowed\<close> and, when \<open>allow_utf8\<close> is set, every well-formed multi-byte UTF-8
  sequence; each other byte becomes \<open>%\<close> and two upper-case hexadecimal digits. For a
  \<^verbatim>\<open>NULL\<close> string it returns \<^verbatim>\<open>NULL\<close>.
\<close>

definition g_ascii_isalnum :: "char \<Rightarrow> bool" where
  "g_ascii_isalnum c \<longleftrightarrow>
     (let n = (of_char c :: nat)
      in (48 \<le> n \<and> n \<le> 57) \<or> (65 \<le> n \<and> n \<le> 90) \<or> (97 \<le> n \<and> n \<le> 122))"

definition is_valid :: "char \<Rightarrow> string option \<Rightarrow> bool" where
  "is_valid c reserved_chars_allowed \<longleftrightarrow>
     g_ascii_isalnum c \<or> c \<in> set ''-._~'' \<or>
     (case reserved_chars_allowed of None \<Rightarrow> False | Some r \<Rightarrow> c \<in> set r)"

definition hex :: "nat \<Rightarrow> char" where
  "hex n = ''0123456789ABCDEF'' ! n"

definition utf8_continuation :: "nat \<Rightarrow> bool" where
  "utf8_continuation b \<longleftrightarrow> 128 \<le> b \<and> b < 192"

text \<open>
  The length of the well-formed multi-byte UTF-8 sequence at the head of the bytes, or 0
  when there is none (\<^verbatim>\<open>g_utf8_get_char_validated\<close> refuses a truncated or over-long
  sequence, a surrogate and a code point above \<open>0x10FFFF\<close>).
\<close>

definition utf8_multibyte_len :: "string \<Rightarrow> nat" where
  "utf8_multibyte_len s =
     (case map of_char s of
        b0 # b1 # rest \<Rightarrow>
          if 194 \<le> b0 \<and> b0 < 224 \<and> utf8_continuation b1 then 2
          else
            (case rest of
               b2 # rest' \<Rightarrow>
                 if 224 \<le> b0 \<and> b0 < 240 \<and> utf8_continuation b1 \<and> utf8_continuation b2 \<and>
                    (b0 = 224 \<longrightarrow> 160 \<le> b1) \<and> (b0 = 237 \<longrightarrow> b1 < 160)
                 then 3
                 else
                   (case rest' of
                      b3 # rest'' \<Rightarrow>
                        if 240 \<le> b0 \<and> b0 < 245 \<and> utf8_continuation b1 \<and>
                           utf8_continuation b2 \<and> utf8_continuation b3 \<and>
                           (b0 = 240 \<longrightarrow> 144 \<le> b1) \<and> (b0 = 244 \<longrightarrow> b1 < 144)
                        then 4
                        else 0
                    | [] \<Rightarrow> 0)
             | [] \<Rightarrow> 0)
      | _ \<Rightarrow> 0)"

fun uri_encoder :: "string \<Rightarrow> string option \<Rightarrow> bool \<Rightarrow> string" where
  "uri_encoder [] reserved_chars_allowed allow_utf8 = []"
| "uri_encoder (c # s) reserved_chars_allowed allow_utf8 =
     (if allow_utf8 \<and> 128 \<le> (of_char c :: nat) \<and> 0 < utf8_multibyte_len (c # s)
      then take (utf8_multibyte_len (c # s)) (c # s) @
           uri_encoder (drop (utf8_multibyte_len (c # s) - 1) s) reserved_chars_allowed allow_utf8
      else if is_valid c reserved_chars_allowed
      then c # uri_encoder s reserved_chars_allowed allow_utf8
      else CHR ''%'' # hex (of_char c div 16) # hex (of_char c mod 16) #
           uri_encoder s reserved_chars_allowed allow_utf8)"

definition g_uri_escape_string :: "string option \<Rightarrow> string option \<Rightarrow> bool \<Rightarrow> string option" where
  "g_uri_escape_string unescaped reserved_chars_allowed allow_utf8 =
     map_option (\<lambda>s. uri_encoder s reserved_chars_allowed allow_utf8) unescaped"

text \<open>
  \<^verbatim>\<open>g_uri_unescape_string (escaped_string, illegal_characters)\<close> replaces each \<open>%XY\<close> by the
  byte it names. It returns \<^verbatim>\<open>NULL\<close> when a \<open>%\<close> is not followed by two hexadecimal digits,
  when an escape names the NUL byte, and when it names one of the illegal characters.
\<close>

definition g_ascii_xdigit_value :: "char \<Rightarrow> nat option" where
  "g_ascii_xdigit_value c =
     (let n = (of_char c :: nat)
      in if 48 \<le> n \<and> n \<le> 57 then Some (n - 48)
         else if 65 \<le> n \<and> n \<le> 70 then Some (n - 55)
         else if 97 \<le> n \<and> n \<le> 102 then Some (n - 87)
         else None)"

definition unescape_character :: "char \<Rightarrow> char \<Rightarrow> nat option" where
  "unescape_character h1 h2 =
     (case g_ascii_xdigit_value h1 of
        None \<Rightarrow> None
      | Some first_digit \<Rightarrow>
          (case g_ascii_xdigit_value h2 of
             None \<Rightarrow> None
           | Some second_digit \<Rightarrow> Some (first_digit * 16 + second_digit)))"

fun g_uri_unescape_string :: "string \<Rightarrow> string option \<Rightarrow> string option" where
  "g_uri_unescape_string (c # h1 # h2 # rest) illegal_characters =
     (if c = CHR ''%'' then
        (case unescape_character h1 h2 of
           None \<Rightarrow> None
         | Some n \<Rightarrow>
             if n = 0 \<or>
                (case illegal_characters of None \<Rightarrow> False | Some ill \<Rightarrow> char_of n \<in> set ill)
             then None
             else map_option ((#) (char_of n)) (g_uri_unescape_string rest illegal_characters))
      else map_option ((#) c) (g_uri_unescape_string (h1 # h2 # rest) illegal_characters))"
| "g_uri_unescape_string (c # rest) illegal_characters =
     (if c = CHR ''%'' then None
      else map_option ((#) c) (g_uri_unescape_string rest illegal_characters))"
| "g_uri_unescape_string [] illegal_characters = Some []"

text \<open>
  \<^verbatim>\<open>g_strsplit (string, delimiter, 0)\<close>, for a delimiter of one character as in both calls
  of the source: the pieces between the delimiters, empty pieces included; the empty
  string gives the empty vector.
\<close>

fun split_tokens :: "char \<Rightarrow> string \<Rightarrow> string list" where
  "split_tokens d [] = [[]]"
| "split_tokens d (c # s) =
     (if c = d then [] # split_tokens d s
      else (case split_tokens d s of
              t # ts \<Rightarrow> (c # t) # ts
            | [] \<Rightarrow> [[c]]))"

definition g_strsplit :: "string \<Rightarrow> char \<Rightarrow> string list" where
  "g_strsplit str delimiter = (if str = [] then [] else split_tokens delimiter str)"

definition g_strv_length :: "string list \<Rightarrow> nat" where
  "g_strv_length str_array = length str_array"

text \<open>
  \<^verbatim>\<open>g_string_append_printf (str, "%s=%s...", k, v)\<close>. Passing \<^verbatim>\<open>NULL\<close> for \<open>%s\<close> is undefined
  behaviour in C: the result is \<open>None\<close> then.
\<close>

definition append_printf_kv :: "string \<Rightarrow> string option \<Rightarrow> string option \<Rightarrow> string \<Rightarrow> string option" where
  "append_printf_kv str k v suffix =
     (case k of
        None \<Rightarrow> None
      | Some k' \<Rightarrow> (case v of None \<Rightarrow> None | Some v' \<Rightarrow> Some (str @ k' @ ''='' @ v' @ suffix)))"

fun to_string_items :: "string \<Rightarrow> GMountSpecItem list \<Rightarrow> string option" where
  "to_string_items str [] = Some str"
| "to_string_items str (item # rest) =
     (let k = g_uri_escape_string (Some (item_key item)) None True;
          v = g_uri_escape_string (Some (item_value item)) None True
      in case append_printf_kv str k v '','' of
           None \<Rightarrow> None
         | Some str' \<Rightarrow> to_string_items str' rest)"

text \<open>
  \<^verbatim>\<open>g_mount_spec_to_string\<close>: \<open>None\<close> as argument is the \<^verbatim>\<open>NULL\<close> specification; \<open>None\<close> as
  result is the undefined behaviour of formatting a \<^verbatim>\<open>NULL\<close> string (a \<^verbatim>\<open>NULL\<close> prefix).
\<close>

definition g_mount_spec_to_string :: "GMountSpec option \<Rightarrow> string option" where
  "g_mount_spec_to_string spec_opt =
     (case spec_opt of
        None \<Rightarrow> Some (g_strdup ''(null)'')
      | Some spec \<Rightarrow>
          (case to_string_items [] (items spec) of
             None \<Rightarrow> None
           | Some str \<Rightarrow>
               (let k = g_uri_escape_string (Some ''__mount_prefix'') None True;
                    v = g_uri_escape_string (mount_prefix spec) None True
                in append_printf_kv str k v [])))"

text \<open>
  \<^verbatim>\<open>g_mount_spec_new_from_string\<close>. The error is the \<^verbatim>\<open>GError\<close> set by \<^verbatim>\<open>g_set_error\<close> (domain
  \<^verbatim>\<open>G_IO_ERROR\<close>), with its message. The source passes the result of
  \<^verbatim>\<open>g_uri_unescape_string\<close> to \<^verbatim>\<open>strcmp\<close> unchecked: when the key does not unescape, \<^verbatim>\<open>strcmp\<close>
  reads through a \<^verbatim>\<open>NULL\<close> pointer (\<open>Null_key_dereferenced\<close>). A value that does not
  unescape is stored as it is, \<^verbatim>\<open>NULL\<close>: as mount prefix it counts as not found; in an
  item it gives a specification that holds a \<^verbatim>\<open>NULL\<close> value, which is outside
  \<open>GMountSpecItem\<close> and is reported as \<open>Returned_null_item_value\<close>.
\<close>

datatype GError = G_IO_ERROR_INVALID_ARGUMENT string

datatype new_from_string_result =
    Returned GMountSpec
  | Failed GError
  | Null_key_dereferenced
  | Returned_null_item_value

datatype kv_pairs_result =
    Pairs_done "(string \<times> string option) list" "string option"
  | Pairs_invalid string
  | Pairs_null_key

fun decode_kv_pairs ::
    "string list \<Rightarrow> (string \<times> string option) list \<Rightarrow> string option \<Rightarrow> kv_pairs_result" where
  "decode_kv_pairs [] items' mount_prefix' = Pairs_done items' mount_prefix'"
| "decode_kv_pairs (kv_pair # kv_pairs) items' mount_prefix' =
     (let tokens = g_strsplit kv_pair (CHR ''='')
      in if g_strv_length tokens \<noteq> 2 then Pairs_invalid kv_pair
         else
           (let k = g_uri_unescape_string (tokens ! 0) None;
                v = g_uri_unescape_string (tokens ! 1) None
            in case k of
                 None \<Rightarrow> Pairs_null_key
               | Some k' \<Rightarrow>
                   if strcmp k' ''__mount_prefix'' = 0
                   then decode_kv_pairs kv_pairs items' v
                   else decode_kv_pairs kv_pairs (items' @ [(k', v)]) mount_prefix'))"

definition invalid_pair_message :: "string \<Rightarrow> string" where
  "invalid_pair_message kv_pair =
     ''Encountered invalid key/value pair '' @ [CHR 0x27] @ kv_pair @ [CHR 0x27] @
     '' while decoding GMountSpec''"

definition missing_prefix_message :: "string \<Rightarrow> string" where
  "missing_prefix_message str =
     ''Didn'' @ [CHR 0x27] @ ''t find __mount_prefix while decoding '' @ [CHR 0x27] @ str @
     [CHR 0x27] @ '' GMountSpec''"

definition g_mount_spec_new_from_string :: "string \<Rightarrow> new_from_string_result" where
  "g_mount_spec_new_from_string str =
     (case decode_kv_pairs (g_strsplit str (CHR '','')) [] None of
        Pairs_invalid kv_pair \<Rightarrow>
          Failed (G_IO_ERROR_INVALID_ARGUMENT (invalid_pair_message kv_pair))
      | Pairs_null_key \<Rightarrow> Null_key_dereferenced
      | Pairs_done items' mount_prefix' \<Rightarrow>
          if mount_prefix' = None
          then Failed (G_IO_ERROR_INVALID_ARGUMENT (missing_prefix_message str))
          else if list_all (\<lambda>(k, v). v \<noteq> None) items'
          then Returned
                 (g_mount_spec_new_from_data
                    (map (\<lambda>(k, v). \<lparr>item_key = k, item_value = the v\<rparr>) items') mount_prefix')
          else Returned_null_item_value)"

text \<open>
  Words for the pairs of a text encoding, to state what the decoder does with them: a
  pair is well formed when it splits on \<open>=\<close> into exactly two tokens and both unescape;
  its key and value are the unescaped tokens; it is a prefix pair when its key is
  \<open>__mount_prefix\<close>.
\<close>

definition well_formed_pair :: "string \<Rightarrow> bool" where
  "well_formed_pair kv_pair \<longleftrightarrow>
     (let tokens = g_strsplit kv_pair (CHR ''='')
      in g_strv_length tokens = 2 \<and>
         g_uri_unescape_string (tokens ! 0) None \<noteq> None \<and>
         g_uri_unescape_string (tokens ! 1) None \<noteq> None)"

definition pair_key :: "string \<Rightarrow> string" where
  "pair_key kv_pair = the (g_uri_unescape_string (g_strsplit kv_pair (CHR ''='') ! 0) None)"

definition pair_value :: "string \<Rightarrow> string" where
  "pair_value kv_pair = the (g_uri_unescape_string (g_strsplit kv_pair (CHR ''='') ! 1) None)"

definition is_prefix_pair :: "string \<Rightarrow> bool" where
  "is_prefix_pair kv_pair \<longleftrightarrow> pair_key kv_pair = ''__mount_prefix''"

definition pair_item :: "string \<Rightarrow> GMountSpecItem" where
  "pair_item kv_pair = \<lparr>item_key = pair_key kv_pair, item_value = pair_value kv_pair\<rparr>"

text \<open>
  What the loop of the decoder asks of a pair to go on to the next one: that it splits on
  \<open>=\<close> into exactly two tokens and that its key unescapes (\<open>keyed_pair\<close>). The value of
  such a pair is taken as \<^verbatim>\<open>g_uri_unescape_string\<close> returns it, \<^verbatim>\<open>NULL\<close> included
  (\<open>unescaped_value\<close>).
\<close>

definition keyed_pair :: "string \<Rightarrow> bool" where
  "keyed_pair kv_pair \<longleftrightarrow>
     (let tokens = g_strsplit kv_pair (CHR ''='')
      in g_strv_length tokens = 2 \<and> g_uri_unescape_string (tokens ! 0) None \<noteq> None)"

definition unescaped_value :: "string \<Rightarrow> string option" where
  "unescaped_value kv_pair = g_uri_unescape_string (g_strsplit kv_pair (CHR ''='') ! 1) None"

definition value_unescapes :: "string \<Rightarrow> bool" where
  "value_unescapes kv_pair \<longleftrightarrow> unescaped_value kv_pair \<noteq> None"

section \<open>The wire encoding\<close>

text \<open>
  Modelled from the spec: the message iterator of the transport (libdbus) and the
  repository's helpers \<^verbatim>\<open>_g_dbus_message_iter_append_cstring\<close> and
  \<^verbatim>\<open>_g_dbus_message_iter_get_args\<close> (\<^verbatim>\<open>gdbusutils.c\<close>) are not among the sources. The spec
  describes "a structured RPC message format that supports nested container types
  (struct-of-fields, arrays, structs-in-arrays) and two string encodings: a standard
  length-prefixed UTF-8 string and a C-string variant".

  A message is a sequence of values; an iterator is the sequence of the values that
  remain at its position. A C string travels as an array of bytes, so its argument type
  is \<open>DBUS_TYPE_ARRAY\<close> with element type \<open>DBUS_TYPE_BYTE\<close>. Appending is taken to succeed
  (the branches of the source that end in \<^verbatim>\<open>_g_dbus_oom\<close> abort the process on memory
  exhaustion).
\<close>

datatype dbus_type =
    DBUS_TYPE_INVALID
  | DBUS_TYPE_BYTE
  | DBUS_TYPE_STRING
  | DBUS_TYPE_ARRAY
  | DBUS_TYPE_STRUCT
  | G_DBUS_TYPE_CSTRING
  | DBUS_TYPE_OTHER nat

datatype dbus_value =
    DBusString string
  | DBusCString string
  | DBusStruct "dbus_value list"
  | DBusArray dbus_type "dbus_value list"
  | DBusOther nat

type_synonym DBusMessageIter = "dbus_value list"

fun dbus_value_type :: "dbus_value \<Rightarrow> dbus_type" where
  "dbus_value_type (DBusString s) = DBUS_TYPE_STRING"
| "dbus_value_type (DBusCString s) = DBUS_TYPE_ARRAY"
| "dbus_value_type (DBusStruct members) = DBUS_TYPE_STRUCT"
| "dbus_value_type (DBusArray t elems) = DBUS_TYPE_ARRAY"
| "dbus_value_type (DBusOther n) = DBUS_TYPE_OTHER n"

definition dbus_message_iter_get_arg_type :: "DBusMessageIter \<Rightarrow> dbus_type" where
  "dbus_message_iter_get_arg_type iter =
     (case iter of [] \<Rightarrow> DBUS_TYPE_INVALID | v # rest \<Rightarrow> dbus_value_type v)"

definition dbus_message_iter_get_element_type :: "DBusMessageIter \<Rightarrow> dbus_type" where
  "dbus_message_iter_get_element_type iter =
     (case iter of
        DBusArray t elems # rest \<Rightarrow> t
      | DBusCString s # rest \<Rightarrow> DBUS_TYPE_BYTE
      | _ \<Rightarrow> DBUS_TYPE_INVALID)"

definition dbus_message_iter_recurse :: "DBusMessageIter \<Rightarrow> DBusMessageIter" where
  "dbus_message_iter_recurse iter =
     (case iter of
        DBusStruct members # rest \<Rightarrow> members
      | DBusArray t elems # rest \<Rightarrow> elems
      | _ \<Rightarrow> [])"

definition dbus_message_iter_next :: "DBusMessageIter \<Rightarrow> DBusMessageIter" where
  "dbus_message_iter_next iter = (case iter of [] \<Rightarrow> [] | v # rest \<Rightarrow> rest)"

text \<open>
  \<^verbatim>\<open>_g_dbus_message_iter_get_args (iter, error, type, &ptr, ..., 0)\<close> reads one value for
  each requested type and steps over it; it returns false (\<open>None\<close>) at the first value
  that is not of the requested type. The strings read are the result, with the iterator.
\<close>

fun g_dbus_message_iter_get_args ::
    "DBusMessageIter \<Rightarrow> dbus_type list \<Rightarrow> (string list \<times> DBusMessageIter) option" where
  "g_dbus_message_iter_get_args iter [] = Some ([], iter)"
| "g_dbus_message_iter_get_args (DBusString s # rest) (DBUS_TYPE_STRING # types) =
     map_option (\<lambda>(vs, iter'). (s # vs, iter')) (g_dbus_message_iter_get_args rest types)"
| "g_dbus_message_iter_get_args (DBusCString s # rest) (G_DBUS_TYPE_CSTRING # types) =
     map_option (\<lambda>(vs, iter'). (s # vs, iter')) (g_dbus_message_iter_get_args rest types)"
| "g_dbus_message_iter_get_args iter (t # types) = None"

definition g_dbus_message_iter_append_cstring :: "DBusMessageIter \<Rightarrow> string \<Rightarrow> DBusMessageIter" where
  "g_dbus_message_iter_append_cstring iter str = iter @ [DBusCString str]"

definition dbus_message_iter_append_string :: "DBusMessageIter \<Rightarrow> string \<Rightarrow> DBusMessageIter" where
  "dbus_message_iter_append_string iter str = iter @ [DBusString str]"

text \<open>
  \<^verbatim>\<open>dbus_message_iter_open_container\<close> starts an empty sub-iterator;
  \<^verbatim>\<open>dbus_message_iter_close_container\<close> appends the finished container to its parent.
\<close>

definition dbus_message_iter_open_container :: "DBusMessageIter" where
  "dbus_message_iter_open_container = []"

definition close_struct :: "DBusMessageIter \<Rightarrow> DBusMessageIter \<Rightarrow> DBusMessageIter" where
  "close_struct iter sub = iter @ [DBusStruct sub]"

definition close_array :: "DBusMessageIter \<Rightarrow> dbus_type \<Rightarrow> DBusMessageIter \<Rightarrow> DBusMessageIter" where
  "close_array iter element_type sub = iter @ [DBusArray element_type sub]"

text \<open>
  \<^verbatim>\<open>g_mount_spec_from_dbus\<close>: the result is the specification (\<open>None\<close> for \<^verbatim>\<open>NULL\<close>) and the
  iterator, which is advanced only when the decoding succeeds. \<open>from_dbus_items\<close> is the
  \<^verbatim>\<open>while\<close> loop over the array: an entry that does not read as (string, C string) is
  skipped.
\<close>

fun from_dbus_items :: "DBusMessageIter \<Rightarrow> GMountSpec \<Rightarrow> GMountSpec" where
  "from_dbus_items [] spec = spec"
| "from_dbus_items (v # array_iter) spec =
     (if dbus_value_type v = DBUS_TYPE_STRUCT then
        (let struct_iter = dbus_message_iter_recurse (v # array_iter);
             spec' =
               (case g_dbus_message_iter_get_args struct_iter
                       [DBUS_TYPE_STRING, G_DBUS_TYPE_CSTRING] of
                  Some ([k, v'], struct_iter') \<Rightarrow> add_item spec (Some k) (Some v')
                | _ \<Rightarrow> spec)
         in from_dbus_items array_iter spec')
      else spec)"

definition g_mount_spec_from_dbus :: "DBusMessageIter \<Rightarrow> GMountSpec option \<times> DBusMessageIter" where
  "g_mount_spec_from_dbus iter =
     (if dbus_message_iter_get_arg_type iter \<noteq> DBUS_TYPE_STRUCT then (None, iter)
      else
        (let spec_iter = dbus_message_iter_recurse iter
         in case g_dbus_message_iter_get_args spec_iter [G_DBUS_TYPE_CSTRING] of
              Some ([mount_prefix'], spec_iter') \<Rightarrow>
                (let spec = (g_mount_spec_new None)\<lparr>mount_prefix := Some mount_prefix'\<rparr>
                 in if dbus_message_iter_get_arg_type spec_iter' \<noteq> DBUS_TYPE_ARRAY \<or>
                       dbus_message_iter_get_element_type spec_iter' \<noteq> DBUS_TYPE_STRUCT
                    then (None, iter)
                    else
                      (let array_iter = dbus_message_iter_recurse spec_iter';
                           spec' = from_dbus_items array_iter spec
                       in (Some (spec'\<lparr>items := g_array_sort item_compare (items spec')\<rparr>),
                           dbus_message_iter_next iter)))
            | _ \<Rightarrow> (None, iter)))"

text \<open>
  \<^verbatim>\<open>g_mount_spec_to_dbus_with_path\<close> appends to the message under construction: a struct of
  the path (the empty string for a \<^verbatim>\<open>NULL\<close> path) and the array of the items.
\<close>

definition to_dbus_item :: "DBusMessageIter \<Rightarrow> GMountSpecItem \<Rightarrow> DBusMessageIter" where
  "to_dbus_item array_iter item =
     (let item_iter = dbus_message_iter_open_container;
          item_iter = dbus_message_iter_append_string item_iter (item_key item);
          item_iter = g_dbus_message_iter_append_cstring item_iter (item_value item)
      in close_struct array_iter item_iter)"

definition g_mount_spec_to_dbus_with_path ::
    "DBusMessageIter \<Rightarrow> GMountSpec \<Rightarrow> string option \<Rightarrow> DBusMessageIter" where
  "g_mount_spec_to_dbus_with_path iter spec path =
     (let spec_iter = dbus_message_iter_open_container;
          spec_iter = g_dbus_message_iter_append_cstring spec_iter
                        (case path of Some p \<Rightarrow> p | None \<Rightarrow> []);
          array_iter = dbus_message_iter_open_container;
          array_iter = foldl to_dbus_item array_iter (items spec);
          spec_iter = close_array spec_iter DBUS_TYPE_STRUCT array_iter
      in close_struct iter spec_iter)"

definition g_mount_spec_to_dbus :: "DBusMessageIter \<Rightarrow> GMountSpec \<Rightarrow> DBusMessageIter" where
  "g_mount_spec_to_dbus iter spec = g_mount_spec_to_dbus_with_path iter spec (mount_prefix spec)"

text \<open>The struct that \<open>to_dbus_item\<close> appends for an item.\<close>

definition wire_item :: "GMountSpecItem \<Rightarrow> dbus_value" where
  "wire_item item = DBusStruct [DBusString (item_key item), DBusCString (item_value item)]"

text \<open>Every string of a well-formed message is a C string.\<close>

fun dbus_cstrings :: "dbus_value \<Rightarrow> bool" where
  "dbus_cstrings (DBusString s) = cstring s"
| "dbus_cstrings (DBusCString s) = cstring s"
| "dbus_cstrings (DBusStruct members) = (\<forall>m \<in> set members. dbus_cstrings m)"
| "dbus_cstrings (DBusArray t elems) = (\<forall>e \<in> set elems. dbus_cstrings e)"
| "dbus_cstrings (DBusOther n) = True"

text \<open>
  The entries that the loop of \<^verbatim>\<open>g_mount_spec_from_dbus\<close> reads from the elements of the
  array: every struct that starts with a string and a C string gives an item, any other
  struct is skipped, and the loop ends at the first element that is not a struct.
\<close>

fun read_entries :: "dbus_value list \<Rightarrow> GMountSpecItem list" where
  "read_entries [] = []"
| "read_entries (DBusStruct (DBusString k # DBusCString v # others) # elems) =
     \<lparr>item_key = k, item_value = v\<rparr> # read_entries elems"
| "read_entries (DBusStruct members # elems) = read_entries elems"
| "read_entries (v # elems) = []"

section \<open>The registry of unique specifications\<close>

text \<open>
  \<^verbatim>\<open>g_mount_spec_get_unique_for\<close> works on pointers and on the static table
  \<^verbatim>\<open>unique_hash\<close>, so the state is explicit: a heap from addresses to specifications,
  and the table (\<open>None\<close> for the \<^verbatim>\<open>NULL\<close> pointer it starts as). The calls are taken one
  after the other; \<^verbatim>\<open>G_LOCK\<close> and \<^verbatim>\<open>G_UNLOCK\<close> do nothing in a sequential model.

  Modelled from the spec: the table is GLib's \<^verbatim>\<open>GHashTable\<close>, which is not part of the
  repository; the spec describes it as a "mapping from a MountSpec's equal-class to the
  single canonical shared instance", with "hash/compare + table op". A table is the list
  of its nodes (the hash of the key when it was inserted, the key, the value); a lookup
  finds the first node whose stored hash is the hash of the key and whose key compares
  equal by the table's equality function, here \<open>g_mount_spec_hash\<close> and
  \<open>g_mount_spec_equal\<close> on the specifications that the keys point to.
\<close>

record unique_state =
  heap :: "nat \<Rightarrow> GMountSpec option"
  unique_hash :: "(32 word \<times> nat \<times> nat) list option"

definition g_hash_table_new :: "(32 word \<times> nat \<times> nat) list" where
  "g_hash_table_new = []"

fun lookup_node ::
    "(nat \<Rightarrow> GMountSpec option) \<Rightarrow> (32 word \<times> nat \<times> nat) list \<Rightarrow> 32 word \<Rightarrow> GMountSpec \<Rightarrow>
     (32 word \<times> nat \<times> nat) option" where
  "lookup_node h [] key_hash k = None"
| "lookup_node h ((node_hash, node_key, node_value) # nodes) key_hash k =
     (if node_hash = key_hash \<and>
         (case h node_key of Some s \<Rightarrow> g_mount_spec_equal s k | None \<Rightarrow> False)
      then Some (node_hash, node_key, node_value)
      else lookup_node h nodes key_hash k)"

definition g_hash_table_lookup ::
    "(nat \<Rightarrow> GMountSpec option) \<Rightarrow> (32 word \<times> nat \<times> nat) list \<Rightarrow> GMountSpec \<Rightarrow> nat option" where
  "g_hash_table_lookup h table k =
     map_option (\<lambda>(node_hash, node_key, node_value). node_value)
       (lookup_node h table (g_mount_spec_hash k) k)"

fun insert_node ::
    "(nat \<Rightarrow> GMountSpec option) \<Rightarrow> (32 word \<times> nat \<times> nat) list \<Rightarrow> 32 word \<Rightarrow> GMountSpec \<Rightarrow>
     nat \<Rightarrow> nat \<Rightarrow> (32 word \<times> nat \<times> nat) list" where
  "insert_node h [] key_hash k key' value' = [(key_hash, key', value')]"
| "insert_node h ((node_hash, node_key, node_value) # nodes) key_hash k key' value' =
     (if node_hash = key_hash \<and>
         (case h node_key of Some s \<Rightarrow> g_mount_spec_equal s k | None \<Rightarrow> False)
      then (node_hash, node_key, value') # nodes
      else (node_hash, node_key, node_value) # insert_node h nodes key_hash k key' value')"

definition g_hash_table_insert ::
    "(nat \<Rightarrow> GMountSpec option) \<Rightarrow> (32 word \<times> nat \<times> nat) list \<Rightarrow> GMountSpec \<Rightarrow> nat \<Rightarrow> nat \<Rightarrow>
     (32 word \<times> nat \<times> nat) list" where
  "g_hash_table_insert h table k key' value' =
     insert_node h table (g_mount_spec_hash k) k key' value'"

text \<open>
  \<^verbatim>\<open>g_mount_spec_ref\<close> increments the reference count and returns its argument. Reading
  through a pointer that the heap does not hold is undefined: the result is \<open>None\<close>.
\<close>

definition g_mount_spec_ref :: "unique_state \<Rightarrow> nat \<Rightarrow> (nat \<times> unique_state) option" where
  "g_mount_spec_ref st spec =
     (case heap st spec of
        None \<Rightarrow> None
      | Some s \<Rightarrow> Some (spec, st\<lparr>heap := (heap st)(spec \<mapsto> s\<lparr>ref_count := ref_count s + 1\<rparr>)\<rparr>))"

definition g_mount_spec_get_unique_for :: "unique_state \<Rightarrow> nat \<Rightarrow> (nat \<times> unique_state) option" where
  "g_mount_spec_get_unique_for st spec =
     (case heap st spec of
        None \<Rightarrow> None
      | Some s \<Rightarrow>
          if is_unique s then g_mount_spec_ref st spec
          else
            (let table = (case unique_hash st of None \<Rightarrow> g_hash_table_new | Some t \<Rightarrow> t)
             in case g_hash_table_lookup (heap st) table s of
                  None \<Rightarrow>
                    (let s' = s\<lparr>is_unique := True\<rparr>;
                         heap' = (heap st)(spec \<mapsto> s');
                         table' = g_hash_table_insert heap' table s' spec spec
                     in g_mount_spec_ref \<lparr>heap = heap', unique_hash = Some table'\<rparr> spec)
                | Some unique_spec \<Rightarrow>
                    g_mount_spec_ref (st\<lparr>unique_hash := Some table\<rparr>) unique_spec))"

text \<open>A sequence of calls, one after the other, with the pointers they return.\<close>

fun get_unique_for_all :: "unique_state \<Rightarrow> nat list \<Rightarrow> (nat list \<times> unique_state) option" where
  "get_unique_for_all st [] = Some ([], st)"
| "get_unique_for_all st (spec # specs) =
     (case g_mount_spec_get_unique_for st spec of
        None \<Rightarrow> None
      | Some (unique_spec, st') \<Rightarrow>
          (case get_unique_for_all st' specs of
             None \<Rightarrow> None
           | Some (rest, st'') \<Rightarrow> Some (unique_spec # rest, st'')))"

text \<open>
  The state of the registry is consistent when every specification of the heap is well
  formed, every node of the table maps a pointer to itself, points to a specification
  that is marked unique and carries its hash, every specification marked unique is the
  key of a node, and no two different specifications marked unique are equal.
\<close>

definition table_nodes :: "unique_state \<Rightarrow> (32 word \<times> nat \<times> nat) list" where
  "table_nodes st = (case unique_hash st of None \<Rightarrow> [] | Some t \<Rightarrow> t)"

definition unique_at :: "unique_state \<Rightarrow> nat \<Rightarrow> bool" where
  "unique_at st a \<longleftrightarrow> (case heap st a of None \<Rightarrow> False | Some s \<Rightarrow> is_unique s)"

definition equal_at :: "unique_state \<Rightarrow> nat \<Rightarrow> nat \<Rightarrow> bool" where
  "equal_at st a b \<longleftrightarrow>
     (case heap st a of
        None \<Rightarrow> False
      | Some sa \<Rightarrow> (case heap st b of None \<Rightarrow> False | Some sb \<Rightarrow> g_mount_spec_equal sa sb))"

definition hash_at :: "unique_state \<Rightarrow> nat \<Rightarrow> 32 word option" where
  "hash_at st a = map_option g_mount_spec_hash (heap st a)"

definition well_formed_at :: "unique_state \<Rightarrow> nat \<Rightarrow> bool" where
  "well_formed_at st a \<longleftrightarrow> (case heap st a of None \<Rightarrow> True | Some s \<Rightarrow> spec_cstrings s)"

definition registry_consistent :: "unique_state \<Rightarrow> bool" where
  "registry_consistent st \<longleftrightarrow>
     (\<forall>a. well_formed_at st a) \<and>
     (\<forall>node \<in> set (table_nodes st).
        case node of (node_hash, node_key, node_value) \<Rightarrow>
          node_value = node_key \<and> unique_at st node_key \<and> hash_at st node_key = Some node_hash) \<and>
     (\<forall>a. unique_at st a \<longrightarrow> a \<in> (\<lambda>(node_hash, node_key, node_value). node_key) ` set (table_nodes st)) \<and>
     (\<forall>a b. unique_at st a \<and> unique_at st b \<and> equal_at st a b \<longrightarrow> a = b)"

text \<open>
  A state to run the registry on: two equal specifications at the addresses 1 and 2, a
  different one at 3, none yet unique, and the table not yet created.
\<close>

definition three_specs :: unique_state where
  "three_specs =
     \<lparr>heap = [1 \<mapsto> g_mount_spec_new (Some ''ftp''),
              2 \<mapsto> g_mount_spec_new (Some ''ftp''),
              3 \<mapsto> g_mount_spec_new (Some ''smb'')],
      unique_hash = None\<rparr>"

section \<open>Canonical paths\<close>

text \<open>
  \<^verbatim>\<open>g_mount_spec_canonicalize_path\<close> edits a copy of the path in place. The buffer \<open>canon\<close>
  is the string it holds, the pointers \<open>p\<close> and \<open>q\<close> are indices into it, and \<open>start\<close> is
  the index 1. \<^verbatim>\<open>memmove (p, q, strlen (q) + 1)\<close> moves the rest of the string from \<open>q\<close>, with
  its terminator, to \<open>p\<close>.
\<close>

definition g_strconcat :: "string \<Rightarrow> string \<Rightarrow> string" where
  "g_strconcat a b = a @ b"

definition start :: nat where
  "start = 1"

definition memmove_rest :: "string \<Rightarrow> nat \<Rightarrow> nat \<Rightarrow> string" where
  "memmove_rest canon p q = take p canon @ drop q canon"

text \<open>\<^verbatim>\<open>while (*p != 0 && *p != '/') p++;\<close>\<close>

function skip_to_separator :: "string \<Rightarrow> nat \<Rightarrow> nat" where
  "skip_to_separator canon p =
     (if char_at canon p \<noteq> NUL \<and> char_at canon p \<noteq> CHR ''/''
      then skip_to_separator canon (p + 1) else p)"
  by pat_completeness auto
termination
  by (relation "measure (\<lambda>(canon, p). length canon - p)") (auto simp: char_at_def split: if_splits)

declare skip_to_separator.simps [simp del]

text \<open>\<^verbatim>\<open>while (*q && *q == '/') q++;\<close>\<close>

function skip_separators :: "string \<Rightarrow> nat \<Rightarrow> nat" where
  "skip_separators canon q =
     (if char_at canon q \<noteq> NUL \<and> char_at canon q = CHR ''/''
      then skip_separators canon (q + 1) else q)"
  by pat_completeness auto
termination
  by (relation "measure (\<lambda>(canon, q). length canon - q)") (auto simp: char_at_def split: if_splits)

declare skip_separators.simps [simp del]

text \<open>\<^verbatim>\<open>while (p > start && *p != '/') p--;\<close>\<close>

function scan_back :: "string \<Rightarrow> nat \<Rightarrow> nat" where
  "scan_back canon p =
     (if p > start \<and> char_at canon p \<noteq> CHR ''/'' then scan_back canon (p - 1) else p)"
  by pat_completeness auto
termination
  by (relation "measure (\<lambda>(canon, p). p)") (auto simp: start_def)

declare scan_back.simps [simp del]

text \<open>
  The body of the main loop, entered with \<open>*p != 0\<close>, in its two parts: the three
  branches (\<open>canonicalize_branch\<close>), then the removal of additional separators
  (\<open>remove_separators\<close>). Each gives the buffer and \<open>p\<close>.
\<close>

definition canonicalize_branch :: "string \<Rightarrow> nat \<Rightarrow> string \<times> nat" where
  "canonicalize_branch canon p =
     (if char_at canon p = CHR ''.'' \<and>
         (char_at canon (p + 1) = NUL \<or> char_at canon (p + 1) = CHR ''/'')
      then (memmove_rest canon p (p + 1), p)
      else if char_at canon p = CHR ''.'' \<and> char_at canon (p + 1) = CHR ''.'' \<and>
              (char_at canon (p + 2) = NUL \<or> char_at canon (p + 2) = CHR ''/'')
      then
        (let q = p + 2;
             p' = (if int p - 2 < int start then start else nat (int p - 2));
             p' = scan_back canon p';
             p' = (if char_at canon p' = CHR ''/'' then p' + 1 else p')
         in (memmove_rest canon p' q, p'))
      else
        (let p' = skip_to_separator canon p;
             p' = (if char_at canon p' \<noteq> NUL then p' + 1 else p')
         in (canon, p')))"

definition remove_separators :: "string \<Rightarrow> nat \<Rightarrow> string \<times> nat" where
  "remove_separators canon p =
     (let q = skip_separators canon p
      in if p \<noteq> q then (memmove_rest canon p q, p) else (canon, p))"

definition canonicalize_step :: "string \<Rightarrow> nat \<Rightarrow> string \<times> nat" where
  "canonicalize_step canon p =
     (case canonicalize_branch canon p of (canon', p') \<Rightarrow> remove_separators canon' p')"

lemma char_at_not_NUL: "char_at canon p \<noteq> NUL \<Longrightarrow> p < length canon"
  by (simp add: char_at_def split: if_splits)

lemma skip_to_separator_bounds:
  "p \<le> skip_to_separator canon p \<and> skip_to_separator canon p \<le> max p (length canon)"
proof (induction canon p rule: skip_to_separator.induct)
  case (1 canon p)
  show ?case
  proof (cases "char_at canon p \<noteq> NUL \<and> char_at canon p \<noteq> CHR ''/''")
    case True
    then have "skip_to_separator canon p = skip_to_separator canon (p + 1)"
      by (subst skip_to_separator.simps) simp
    with "1.IH" [OF True] True char_at_not_NUL [of canon p] show ?thesis
      by auto
  next
    case False
    then have "skip_to_separator canon p = p"
      by (subst skip_to_separator.simps) auto
    then show ?thesis
      by simp
  qed
qed

lemma skip_separators_bounds:
  "q \<le> skip_separators canon q \<and> skip_separators canon q \<le> max q (length canon)"
proof (induction canon q rule: skip_separators.induct)
  case (1 canon q)
  show ?case
  proof (cases "char_at canon q \<noteq> NUL \<and> char_at canon q = CHR ''/''")
    case True
    then have "skip_separators canon q = skip_separators canon (q + 1)"
      by (subst skip_separators.simps) (simp add: NUL_def)
    with "1.IH" [OF True] True char_at_not_NUL [of canon q] show ?thesis
      by auto
  next
    case False
    then have "skip_separators canon q = q"
      by (subst skip_separators.simps) (auto simp: NUL_def)
    then show ?thesis
      by simp
  qed
qed

lemma scan_back_le: "scan_back canon p \<le> p"
proof (induction canon p rule: scan_back.induct)
  case (1 canon p)
  show ?case
  proof (cases "p > start \<and> char_at canon p \<noteq> CHR ''/''")
    case True
    then have "scan_back canon p = scan_back canon (p - 1)"
      by (subst scan_back.simps) simp
    with "1.IH" [OF True] show ?thesis
      by simp
  next
    case False
    then have "scan_back canon p = p"
      by (subst scan_back.simps) auto
    then show ?thesis
      by simp
  qed
qed

lemma remove_separators_decreases:
  assumes "p \<le> length canon" and "remove_separators canon p = (canon', p')"
  shows "p' = p \<and> length canon' - p' \<le> length canon - p"
  using assms skip_separators_bounds [of p canon]
  by (auto simp: remove_separators_def memmove_rest_def Let_def split: if_splits)

lemma canonicalize_branch_decreases:
  assumes "char_at canon p \<noteq> NUL" and "canonicalize_branch canon p = (canon1, p1)"
  shows "p1 \<le> length canon1 \<and> length canon1 - p1 < length canon - p"
proof -
  have p: "p < length canon"
    using assms(1) by (rule char_at_not_NUL)
  show ?thesis
  proof (cases "char_at canon p = CHR ''.'' \<and>
      (char_at canon (p + 1) = NUL \<or> char_at canon (p + 1) = CHR ''/'')")
    case True
    with assms(2) p show ?thesis
      by (auto simp: canonicalize_branch_def memmove_rest_def)
  next
    case dot: False
    show ?thesis
    proof (cases "char_at canon p = CHR ''.'' \<and> char_at canon (p + 1) = CHR ''.'' \<and>
        (char_at canon (p + 2) = NUL \<or> char_at canon (p + 2) = CHR ''/'')")
      case True
      then have q: "p + 2 \<le> length canon"
        using char_at_not_NUL [of canon "p + 1"] by (auto simp: NUL_def)
      define p2 where "p2 = (if int p - 2 < int start then start else nat (int p - 2))"
      define p3 where "p3 = scan_back canon p2"
      define p4 where "p4 = (if char_at canon p3 = CHR ''/'' then p3 + 1 else p3)"
      have "p2 \<le> length canon"
        using q by (auto simp: p2_def start_def)
      then have "p3 \<le> length canon"
        using scan_back_le [of canon p2] by (simp add: p3_def)
      then have p4: "p4 \<le> length canon"
        using char_at_not_NUL [of canon p3] by (auto simp: p4_def NUL_def)
      have "canonicalize_branch canon p = (memmove_rest canon p4 (p + 2), p4)"
        unfolding canonicalize_branch_def p4_def p3_def p2_def using True dot
        by (simp add: Let_def)
      with assms(2) have "canon1 = memmove_rest canon p4 (p + 2)" "p1 = p4"
        by auto
      with p4 q p show ?thesis
        by (auto simp: memmove_rest_def)
    next
      case False
      define p2 where "p2 = skip_to_separator canon p"
      define p3 where "p3 = (if char_at canon p2 \<noteq> NUL then p2 + 1 else p2)"
      have p2: "p \<le> p2" "p2 \<le> length canon"
        using skip_to_separator_bounds [of p canon] p by (simp_all add: p2_def)
      have "p < p3"
      proof (cases "p2 = p")
        case True
        with assms(1) show ?thesis
          by (simp add: p3_def)
      next
        case False
        with p2(1) show ?thesis
          by (simp add: p3_def)
      qed
      moreover have "p3 \<le> length canon"
        using p2(2) char_at_not_NUL [of canon p2] by (auto simp: p3_def)
      moreover have "canonicalize_branch canon p = (canon, p3)"
        unfolding canonicalize_branch_def p3_def p2_def
        by (simp only: False dot if_False Let_def)
      with assms(2) have "canon1 = canon" "p1 = p3"
        by auto
      ultimately show ?thesis
        by simp
    qed
  qed
qed

lemma canonicalize_step_decreases:
  assumes "char_at canon p \<noteq> NUL" and "canonicalize_step canon p = (canon', p')"
  shows "length canon' - p' < length canon - p"
proof -
  obtain canon1 p1 where b: "canonicalize_branch canon p = (canon1, p1)"
    by (cases "canonicalize_branch canon p")
  from canonicalize_branch_decreases [OF assms(1) b]
  have "p1 \<le> length canon1" "length canon1 - p1 < length canon - p"
    by simp_all
  moreover from assms(2) b have "remove_separators canon1 p1 = (canon', p')"
    by (simp add: canonicalize_step_def)
  ultimately show ?thesis
    using remove_separators_decreases [of p1 canon1 canon' p'] by auto
qed

text \<open>The main loop, \<^verbatim>\<open>while (*p != 0)\<close>: the result is the buffer and \<open>p\<close> at its exit.\<close>

function canonicalize_loop :: "string \<Rightarrow> nat \<Rightarrow> string \<times> nat" where
  "canonicalize_loop canon p =
     (if char_at canon p \<noteq> NUL
      then (case canonicalize_step canon p of (canon', p') \<Rightarrow> canonicalize_loop canon' p')
      else (canon, p))"
  by pat_completeness auto
termination
  by (relation "measure (\<lambda>(canon, p). length canon - p)")
    (auto dest: canonicalize_step_decreases [OF _ sym] split: prod.splits)

declare canonicalize_loop.simps [simp del]

definition g_mount_spec_canonicalize_path :: "string \<Rightarrow> string" where
  "g_mount_spec_canonicalize_path path =
     (let canon = (if char_at path 0 \<noteq> CHR ''/'' then g_strconcat ''/'' path else g_strdup path);
          (canon, p) = canonicalize_loop canon start
      in if p > start \<and> char_at canon (p - 1) = CHR ''/'' then take (p - 1) canon else canon)"

text \<open>
  What the canonical form of a path is, in the words of the spec: the segments between
  the separators, without the empty ones; \<open>.\<close> is dropped, \<open>..\<close> drops the segment before it
  (and nothing at the root), every other segment is kept; the result is \<open>/\<close> and the
  segments joined by \<open>/\<close>. The code adds one thing the spec does not say: when the path
  after its first \<open>/\<close> starts with another \<open>/\<close>, that second separator is kept in front
  of the segments that remain.
\<close>

definition path_segments :: "string \<Rightarrow> string list" where
  "path_segments s = filter (\<lambda>seg. seg \<noteq> []) (split_tokens (CHR ''/'') s)"

definition apply_segment :: "string list \<Rightarrow> string \<Rightarrow> string list" where
  "apply_segment kept seg =
     (if seg = ''.'' then kept else if seg = ''..'' then butlast kept else kept @ [seg])"

fun join_segments :: "string list \<Rightarrow> string" where
  "join_segments [] = []"
| "join_segments [seg] = seg"
| "join_segments (seg # segs) = seg @ ''/'' @ join_segments segs"

definition canonical_form :: "string \<Rightarrow> string" where
  "canonical_form path =
     (let body = (if path \<noteq> [] \<and> hd path = CHR ''/'' then tl path else path);
          kept = foldl apply_segment [] (path_segments body)
      in if kept = [] then ''/''
         else if body \<noteq> [] \<and> hd body = CHR ''/'' then ''//'' @ join_segments kept
         else ''/'' @ join_segments kept)"


text \<open>
  The state of the loop, read as segments: the buffer up to \<open>p\<close> is \<open>done_part lead kept\<close>,
  the segments kept so far, each with its separator, after the first \<open>/\<close> (and a second
  one when \<open>lead\<close>). \<open>strip_trailing\<close> is the last statement of the function, and
  \<open>rendered lead kept\<close> what is returned for these segments.
\<close>

definition done_part :: "bool \<Rightarrow> string list \<Rightarrow> string" where
  "done_part lead kept =
     CHR ''/'' # (if lead then ''/'' else []) @ concat (map (\<lambda>seg. seg @ ''/'') kept)"

definition rendered :: "bool \<Rightarrow> string list \<Rightarrow> string" where
  "rendered lead kept =
     (if kept = [] then ''/''
      else CHR ''/'' # (if lead then ''/'' else []) @ join_segments kept)"

definition strip_trailing :: "string \<times> nat \<Rightarrow> string" where
  "strip_trailing cp =
     (case cp of (canon, p) \<Rightarrow>
        if p > start \<and> char_at canon (p - 1) = CHR ''/'' then take (p - 1) canon else canon)"

definition plain_segment :: "string \<Rightarrow> bool" where
  "plain_segment seg \<longleftrightarrow> seg \<noteq> [] \<and> CHR ''/'' \<notin> set seg"

definition kept_segment :: "string \<Rightarrow> bool" where
  "kept_segment seg \<longleftrightarrow> plain_segment seg \<and> cstring seg \<and> seg \<noteq> ''.'' \<and> seg \<noteq> ''..''"

text \<open>The body of a path: what follows its first separator, or all of it when it has none.\<close>

definition path_body :: "string \<Rightarrow> string" where
  "path_body path = (if path \<noteq> [] \<and> hd path = CHR ''/'' then tl path else path)"

section \<open>Facts about C strings\<close>

lemma of_char_eq_0_iff: "(of_char c :: nat) = 0 \<longleftrightarrow> c = NUL"
  unfolding NUL_def by (cases c) simp

lemma char_of_eq_iff: "char_of (n::nat) = c \<longleftrightarrow> n mod 256 = of_char c"
  by (metis char_of_char of_char_of)

lemma cstring_Nil [simp]: "cstring []"
  by (simp add: cstring_def)

lemma cstring_Cons [simp]: "cstring (c # s) \<longleftrightarrow> c \<noteq> NUL \<and> cstring s"
  by (auto simp: cstring_def)

lemma cstring_append [simp]: "cstring (s @ t) \<longleftrightarrow> cstring s \<and> cstring t"
  by (auto simp: cstring_def)

lemma cstring_take: "cstring s \<Longrightarrow> cstring (take n s)"
  unfolding cstring_def by (meson in_set_takeD)

lemma cstring_drop: "cstring s \<Longrightarrow> cstring (drop n s)"
  unfolding cstring_def by (meson in_set_dropD)

lemma cstring_nth: "cstring s \<Longrightarrow> i < length s \<Longrightarrow> s ! i \<noteq> NUL"
  unfolding cstring_def by (metis nth_mem)

lemma char_at_NUL_iff: "cstring s \<Longrightarrow> char_at s i = NUL \<longleftrightarrow> length s \<le> i"
  by (auto simp: char_at_def dest: cstring_nth)

lemma strncmp_prefix:
  "cstring b \<Longrightarrow> strncmp a b (length b) = 0 \<longleftrightarrow> take (length b) a = b"
proof (induction b arbitrary: a)
  case Nil
  then show ?case by simp
next
  case (Cons y ys)
  then show ?case
    by (cases a) (auto simp: of_char_eq_0_iff)
qed

section \<open>Prefix matching: the claim\<close>

lemma path_has_prefix_Some:
  assumes "cstring path" and "cstring pfx"
  shows "path_has_prefix path (Some pfx) \<longleftrightarrow>
           take (length pfx) path = pfx \<and>
           (pfx = [] \<or> last pfx = CHR ''/'' \<or> length path = length pfx \<or>
            (length pfx < length path \<and> path ! length pfx = CHR ''/''))"
proof (cases "take (length pfx) path = pfx")
  case False
  with assms show ?thesis
    by (simp add: path_has_prefix_def strlen_def strncmp_prefix)
next
  case True
  then have len: "length pfx \<le> length path"
    by (metis nat_le_linear take_all_iff)
  have last: "pfx \<noteq> [] \<Longrightarrow> char_at pfx (length pfx - Suc 0) = last pfx"
    by (simp add: char_at_def last_conv_nth)
  have nul: "char_at path (length pfx) = NUL \<longleftrightarrow> length path = length pfx"
    using assms(1) len by (auto simp: char_at_NUL_iff)
  have sep: "char_at path (length pfx) = CHR ''/'' \<longleftrightarrow>
               length pfx < length path \<and> path ! length pfx = CHR ''/''"
    by (auto simp: char_at_def NUL_def)
  from True assms show ?thesis
    by (cases "pfx = []") (simp_all add: path_has_prefix_def strlen_def strncmp_prefix Let_def last nul sep)
qed

text \<open>
  C1 (as stated): the characterisation of \<open>path_has_prefix\<close> holds, but the example
  \<open>path_has_prefix("/foo", "/foo/") = true\<close> does not: the path \<open>/foo\<close> does not start
  with the bytes of \<open>/foo/\<close>, so \<^verbatim>\<open>strncmp\<close> is non-zero and the function returns false.
\<close>

theorem path_has_prefix_foo_counterexample:
  "\<not> path_has_prefix ''/foo'' (Some ''/foo/'')"
  by (simp add: path_has_prefix_def strlen_def)

text \<open>
  C1 (amended): \<open>path_has_prefix\<close> returns true when the prefix is null; otherwise it
  returns true if and only if the path starts with the bytes of the prefix and either
  the prefix is empty, or its last character is \<open>/\<close>, or the character of the path right
  after the matched prefix is the string end or \<open>/\<close>. So \<open>("/foo/bar", "/foo")\<close> is true,
  \<open>("/foobar", "/foo")\<close> is false, \<open>("/foo", "/foo/")\<close> is false, \<open>("/foo/bar", "/foo/")\<close>
  is true, and every path has the empty prefix and the null prefix.
\<close>

theorem path_has_prefix_spec:
  assumes "cstring path" and "cstring pfx"
  shows "path_has_prefix path None \<and>
         (path_has_prefix path (Some pfx) \<longleftrightarrow>
            take (length pfx) path = pfx \<and>
            (pfx = [] \<or> last pfx = CHR ''/'' \<or> length path = length pfx \<or>
             (length pfx < length path \<and> path ! length pfx = CHR ''/''))) \<and>
         path_has_prefix ''/foo/bar'' (Some ''/foo'') \<and>
         \<not> path_has_prefix ''/foobar'' (Some ''/foo'') \<and>
         \<not> path_has_prefix ''/foo'' (Some ''/foo/'') \<and>
         path_has_prefix ''/foo/bar'' (Some ''/foo/'') \<and>
         path_has_prefix path (Some [])"
proof -
  have null: "path_has_prefix path None"
    by (simp add: path_has_prefix_def)
  have empty: "path_has_prefix path (Some [])"
    by (simp add: path_has_prefix_def strlen_def)
  have ex: "path_has_prefix ''/foo/bar'' (Some ''/foo'')"
    "\<not> path_has_prefix ''/foobar'' (Some ''/foo'')"
    "\<not> path_has_prefix ''/foo'' (Some ''/foo/'')"
    "path_has_prefix ''/foo/bar'' (Some ''/foo/'')"
    by (simp_all add: path_has_prefix_def strlen_def char_at_def NUL_def)
  from null empty ex path_has_prefix_Some [OF assms] show ?thesis
    by blast
qed

theorem path_has_prefix_spec_witness:
  "cstring ''/foo/bar'' \<and> cstring ''/foo'' \<and>
   path_has_prefix ''/foo/bar'' (Some ''/foo'') \<and>
   take (length ''/foo'') ''/foo/bar'' = ''/foo'' \<and>
   ''/foo/bar'' ! length ''/foo'' = CHR ''/''"
proof -
  have c: "cstring ''/foo/bar''" "cstring ''/foo''"
    by (simp_all add: NUL_def)
  from path_has_prefix_spec [OF c] c show ?thesis
    by simp
qed

section \<open>Equality and hash\<close>

lemma strcmp_eq_0_iff: "cstring a \<Longrightarrow> cstring b \<Longrightarrow> strcmp a b = 0 \<longleftrightarrow> a = b"
  by (induction a b rule: strcmp.induct) (auto simp: of_char_eq_0_iff)

lemma item_eta [simp]: "\<lparr>item_key = item_key x, item_value = item_value x\<rparr> = x"
  by simp

lemma strcmp_refl [simp]: "strcmp a a = 0"
  by (induction a) simp_all

lemma items_equal_loop_eq:
  "list_all item_cstrings a \<Longrightarrow> list_all item_cstrings b \<Longrightarrow> length a = length b \<Longrightarrow>
   items_equal_loop a b \<longleftrightarrow> a = b"
proof (induction a b rule: items_equal_loop.induct)
  case (1 item_a a item_b b)
  then show ?case
    by (auto simp: item_cstrings_def strcmp_eq_0_iff)
qed simp_all

lemma items_equal_eq:
  "list_all item_cstrings a \<Longrightarrow> list_all item_cstrings b \<Longrightarrow> items_equal a b \<longleftrightarrow> a = b"
  using items_equal_loop_eq [of a b] by (auto simp: items_equal_def)

lemma g_mount_spec_equal_iff:
  assumes "spec_cstrings a" and "spec_cstrings b"
  shows "g_mount_spec_equal a b \<longleftrightarrow> items a = items b \<and> mount_prefix a = mount_prefix b"
  using assms
  by (auto simp: g_mount_spec_equal_def spec_cstrings_def items_equal_eq strcmp_eq_0_iff
      split: option.splits)

lemma foldl_xor_values:
  "foldl (\<lambda>hash item. hash XOR g_str_hash (item_value item)) h xs =
   h XOR foldr (XOR) (map (\<lambda>item. g_str_hash (item_value item)) xs) 0"
proof (induction xs arbitrary: h)
  case Nil
  then show ?case by simp
next
  case (Cons x xs)
  show ?case
    by (simp add: Cons.IH [of "h XOR g_str_hash (item_value x)"] ac_simps)
qed

text \<open>
  C6: for all mount specs A and B, if \<open>g_mount_spec_equal (A, B)\<close> is true then their
  hashes are equal; the hash is the exclusive-or of the string hash of the prefix (when
  it is not null) with the string hashes of the items' values, and the keys do not
  contribute.
\<close>

theorem g_mount_spec_equal_hash:
  assumes "spec_cstrings a" and "spec_cstrings b" and "g_mount_spec_equal a b"
  shows "g_mount_spec_hash a = g_mount_spec_hash b \<and>
         g_mount_spec_hash a =
           (case mount_prefix a of None \<Rightarrow> 0 | Some p \<Rightarrow> g_str_hash p) XOR
           foldr (XOR) (map (\<lambda>item. g_str_hash (item_value item)) (items a)) 0"
proof -
  from assms have "items a = items b" and "mount_prefix a = mount_prefix b"
    by (simp_all add: g_mount_spec_equal_iff)
  then have "g_mount_spec_hash a = g_mount_spec_hash b"
    by (simp add: g_mount_spec_hash_def)
  moreover have "g_mount_spec_hash a =
      (case mount_prefix a of None \<Rightarrow> 0 | Some p \<Rightarrow> g_str_hash p) XOR
      foldr (XOR) (map (\<lambda>item. g_str_hash (item_value item)) (items a)) 0"
    unfolding g_mount_spec_hash_def foldl_xor_values
    by (simp split: option.splits)
  ultimately show ?thesis by simp
qed

theorem g_mount_spec_equal_hash_witness:
  "spec_cstrings (g_mount_spec_new (Some ''ftp'')) \<and>
   spec_cstrings ((g_mount_spec_new (Some ''ftp''))\<lparr>ref_count := 2\<rparr>) \<and>
   g_mount_spec_equal (g_mount_spec_new (Some ''ftp''))
     ((g_mount_spec_new (Some ''ftp''))\<lparr>ref_count := 2\<rparr>) \<and>
   g_mount_spec_hash (g_mount_spec_new (Some ''ftp'')) =
     g_mount_spec_hash ((g_mount_spec_new (Some ''ftp''))\<lparr>ref_count := 2\<rparr>)"
proof -
  have new: "g_mount_spec_new (Some ''ftp'') =
      \<lparr>ref_count = 1, items = [\<lparr>item_key = ''type'', item_value = ''ftp''\<rparr>],
       mount_prefix = Some ''/'', is_unique = False\<rparr>"
    by (simp add: g_mount_spec_new_def g_mount_spec_set_def g_mount_spec_set_with_len_def
        add_item_def g_array_sort_def g_strdup_def)
  have c: "spec_cstrings (g_mount_spec_new (Some ''ftp''))"
    "spec_cstrings ((g_mount_spec_new (Some ''ftp''))\<lparr>ref_count := 2\<rparr>)"
    by (simp_all add: new spec_cstrings_def item_cstrings_def NUL_def)
  have e: "g_mount_spec_equal (g_mount_spec_new (Some ''ftp''))
     ((g_mount_spec_new (Some ''ftp''))\<lparr>ref_count := 2\<rparr>)"
    by (simp add: new g_mount_spec_equal_def items_equal_def)
  from g_mount_spec_equal_hash [OF c e] c e show ?thesis
    by simp
qed

section \<open>Sorting by key\<close>

lemma of_char_inj: "(of_char x :: nat) = of_char y \<longleftrightarrow> x = y"
  by (metis char_of_char)

lemma strcmp_less_iff:
  "cstring a \<Longrightarrow> cstring b \<Longrightarrow> strcmp a b < 0 \<longleftrightarrow> bytewise_less a b"
proof (induction a b rule: strcmp.induct)
  case (2 y ys)
  then show ?case
    using of_char_eq_0_iff [of y] by simp
qed (auto simp: of_char_inj)

lemma strcmp_le_iff:
  "cstring a \<Longrightarrow> cstring b \<Longrightarrow> strcmp a b \<le> 0 \<longleftrightarrow> bytewise_less a b \<or> a = b"
  using strcmp_less_iff [of a b] strcmp_eq_0_iff [of a b] by auto

lemma bytewise_less_irrefl [simp]: "\<not> bytewise_less a a"
  by (induction a) simp_all

lemma bytewise_less_trans:
  "bytewise_less a b \<Longrightarrow> bytewise_less b c \<Longrightarrow> bytewise_less a c"
proof (induction a b arbitrary: c rule: bytewise_less.induct)
  case (2 y ys)
  then show ?case by (cases c) simp_all
next
  case (4 x xs y ys)
  then show ?case by (cases c) auto
qed simp_all

lemma bytewise_less_linear: "bytewise_less a b \<or> a = b \<or> bytewise_less b a"
proof (induction a b rule: bytewise_less.induct)
  case (4 x xs y ys)
  then show ?case
    using of_char_inj [of x y] by (auto simp: not_less_iff_gr_or_eq)
qed simp_all

lemma bytewise_less_asym: "bytewise_less a b \<Longrightarrow> \<not> bytewise_less b a"
  using bytewise_less_trans [of a b a] by auto

lemma item_compare_le_iff:
  "item_cstrings a \<Longrightarrow> item_cstrings b \<Longrightarrow>
   item_compare a b \<le> 0 \<longleftrightarrow> bytewise_less (item_key a) (item_key b) \<or> item_key a = item_key b"
  by (simp add: item_compare_def item_cstrings_def strcmp_le_iff)

lemma set_sort_insert [simp]: "set (sort_insert f x xs) = insert x (set xs)"
  by (induction xs) auto

lemma length_sort_insert [simp]: "length (sort_insert f x xs) = Suc (length xs)"
  by (induction xs) auto

lemma set_g_array_sort [simp]: "set (g_array_sort f xs) = set xs"
  by (induction xs) (simp_all add: g_array_sort_def)

lemma length_g_array_sort [simp]: "length (g_array_sort f xs) = length xs"
  by (induction xs) (simp_all add: g_array_sort_def)

lemma g_array_sort_Cons: "g_array_sort f (x # xs) = sort_insert f x (g_array_sort f xs)"
  by (simp add: g_array_sort_def)

lemma g_array_sort_Nil [simp]: "g_array_sort f [] = []"
  by (simp add: g_array_sort_def)

lemma list_all_g_array_sort [simp]: "list_all P (g_array_sort f xs) = list_all P xs"
  by (simp add: list_all_iff)

lemma distinct_keys_sort_insert:
  "distinct (map item_key (sort_insert f x xs)) \<longleftrightarrow>
   item_key x \<notin> item_key ` set xs \<and> distinct (map item_key xs)"
  by (induction xs) auto

lemma distinct_keys_g_array_sort:
  "distinct (map item_key (g_array_sort f xs)) \<longleftrightarrow> distinct (map item_key xs)"
  by (induction xs) (simp_all add: g_array_sort_Cons distinct_keys_sort_insert)

lemma keys_sorted_sort_insert:
  assumes "item_cstrings x" and "list_all item_cstrings xs" and "keys_sorted xs"
  shows "keys_sorted (sort_insert item_compare x xs)"
  using assms
proof (induction xs)
  case Nil
  then show ?case by (simp add: keys_sorted_def)
next
  case (Cons y ys)
  have le: "item_compare x y \<le> 0 \<longleftrightarrow>
      bytewise_less (item_key x) (item_key y) \<or> item_key x = item_key y"
    using Cons.prems by (simp add: item_compare_le_iff)
  show ?case
  proof (cases "item_compare x y \<le> 0")
    case True
    with le Cons.prems show ?thesis
      by (auto simp: keys_sorted_def dest: bytewise_less_trans)
  next
    case False
    with le have "bytewise_less (item_key y) (item_key x)"
      using bytewise_less_linear [of "item_key x" "item_key y"] by auto
    with False Cons show ?thesis
      by (auto simp: keys_sorted_def)
  qed
qed

lemma keys_sorted_g_array_sort:
  "list_all item_cstrings xs \<Longrightarrow> keys_sorted (g_array_sort item_compare xs)"
proof (induction xs)
  case Nil
  then show ?case by (simp add: keys_sorted_def)
next
  case (Cons x xs)
  then show ?case
    by (simp add: g_array_sort_Cons keys_sorted_sort_insert)
qed

lemma keys_strictly_sorted_iff:
  "keys_strictly_sorted xs \<longleftrightarrow> keys_sorted xs \<and> distinct (map item_key xs)"
proof (induction xs)
  case Nil
  then show ?case by (simp add: keys_sorted_def keys_strictly_sorted_def)
next
  case (Cons x xs)
  then show ?case
    by (auto simp: keys_sorted_def keys_strictly_sorted_def)
qed

lemma sort_insert_sorted_id:
  "keys_sorted (x # xs) \<Longrightarrow> list_all item_cstrings (x # xs) \<Longrightarrow>
   sort_insert item_compare x xs = x # xs"
  by (cases xs) (auto simp: keys_sorted_def item_compare_le_iff)

lemma g_array_sort_sorted_id:
  "keys_sorted xs \<Longrightarrow> list_all item_cstrings xs \<Longrightarrow> g_array_sort item_compare xs = xs"
proof (induction xs)
  case Nil
  then show ?case by simp
next
  case (Cons x xs)
  then have "g_array_sort item_compare xs = xs"
    by (simp add: keys_sorted_def)
  with Cons.prems show ?case
    by (simp add: g_array_sort_Cons sort_insert_sorted_id)
qed

section \<open>Setting a key\<close>

lemma set_existing_keys:
  "set_existing xs k v = Some ys \<Longrightarrow> map item_key ys = map item_key xs"
  by (induction xs arbitrary: ys) (auto split: if_splits)

lemma set_existing_cstrings:
  "set_existing xs k v = Some ys \<Longrightarrow> list_all item_cstrings xs \<Longrightarrow> cstring v \<Longrightarrow>
   list_all item_cstrings ys"
  by (induction xs arbitrary: ys) (auto simp: item_cstrings_def split: if_splits)

lemma set_existing_None:
  "set_existing xs k v = None \<Longrightarrow> list_all item_cstrings xs \<Longrightarrow> cstring k \<Longrightarrow>
   k \<notin> item_key ` set xs"
  by (induction xs) (auto simp: item_cstrings_def strcmp_eq_0_iff split: if_splits)

lemma keys_strictly_sorted_cong:
  "map item_key ys = map item_key xs \<Longrightarrow> keys_strictly_sorted ys = keys_strictly_sorted xs"
  unfolding keys_strictly_sorted_def sorted_wrt_map [symmetric, of bytewise_less item_key]
  by simp

lemma value_copy_cases:
  assumes "(if value_len = - 1 then Some (g_strdup v) else g_strndup v (gsize_of_int value_len)) =
      Some value_copy" and "cstring v"
  shows "cstring value_copy"
  using assms
  by (auto simp: g_strdup_def g_strndup_def cstring_take split: if_splits)

lemma set_with_len_invariant:
  assumes "spec_cstrings spec" and "cstring k" and "cstring v"
    and "g_mount_spec_set_with_len spec (Some k) (Some v) value_len = Some spec'"
  shows "spec_cstrings spec'"
    and "keys_strictly_sorted (items spec) \<Longrightarrow> keys_strictly_sorted (items spec')"
proof -
  from assms(4) obtain value_copy where
    copy: "(if value_len = - 1 then Some (g_strdup v) else g_strndup v (gsize_of_int value_len)) =
      Some value_copy"
    by (cases "if value_len = - 1 then Some (g_strdup v) else g_strndup v (gsize_of_int value_len)")
      (simp_all add: g_mount_spec_set_with_len_def)
  have vc: "cstring value_copy"
    using copy assms(3) by (rule value_copy_cases)
  have its: "list_all item_cstrings (items spec)"
    using assms(1) by (simp add: spec_cstrings_def)
  show "spec_cstrings spec'"
  proof (cases "set_existing (items spec) k value_copy")
    case None
    with assms vc copy show ?thesis
      by (auto simp: g_mount_spec_set_with_len_def add_item_def
          spec_cstrings_def item_cstrings_def g_strdup_def)
  next
    case (Some ys)
    with assms copy set_existing_cstrings [OF Some its vc] show ?thesis
      by (auto simp: g_mount_spec_set_with_len_def spec_cstrings_def)
  qed
  assume sorted: "keys_strictly_sorted (items spec)"
  show "keys_strictly_sorted (items spec')"
  proof (cases "set_existing (items spec) k value_copy")
    case None
    let ?new = "items spec @ [\<lparr>item_key = k, item_value = value_copy\<rparr>]"
    have "k \<notin> item_key ` set (items spec)"
      using set_existing_None [OF None its assms(2)] .
    with sorted have "distinct (map item_key ?new)"
      by (auto simp: keys_strictly_sorted_iff)
    moreover have "list_all item_cstrings ?new"
      using its assms(2) vc by (simp add: item_cstrings_def)
    ultimately have "keys_strictly_sorted (g_array_sort item_compare ?new)"
      by (simp add: keys_strictly_sorted_iff keys_sorted_g_array_sort distinct_keys_g_array_sort)
    with None copy assms(4) show ?thesis
      by (auto simp: g_mount_spec_set_with_len_def add_item_def g_strdup_def)
  next
    case (Some ys)
    with sorted keys_strictly_sorted_cong [OF set_existing_keys [OF Some]] copy assms(4)
    show ?thesis
      by (auto simp: g_mount_spec_set_with_len_def)
  qed
qed

text \<open>
  The call returns for every \<open>value_len\<close> from \<open>- 1\<close> up (an \<^verbatim>\<open>int\<close> is below \<open>2 ^ 31\<close>), and
  for no \<open>value_len\<close> below \<open>- 1\<close>.
\<close>

lemma set_with_len_returns:
  assumes "- 1 \<le> value_len" and "value_len < 2 ^ 31"
  shows "\<exists>spec'. g_mount_spec_set_with_len spec k v value_len = Some spec'"
proof -
  have "value_len = - 1 \<or> g_strndup v' (gsize_of_int value_len) \<noteq> None" for v'
  proof (cases "value_len = - 1")
    case False
    with assms have "0 \<le> value_len" "value_len mod 2 ^ 64 = value_len"
      by simp_all
    with assms(2) have "gsize_of_int value_len + 1 < 2 ^ 63"
      by (simp add: gsize_of_int_def nat_less_iff)
    then show ?thesis
      by (simp add: g_strndup_def)
  qed simp
  then have copy: "\<exists>value_copy.
      (if value_len = - 1 then Some (g_strdup v') else g_strndup v' (gsize_of_int value_len)) =
        Some value_copy" for v'
    by (cases "value_len = - 1") auto
  show ?thesis
  proof (cases k)
    case None
    then show ?thesis
      by (simp add: g_mount_spec_set_with_len_def)
  next
    case k: (Some k')
    show ?thesis
    proof (cases v)
      case None
      with k show ?thesis
        by (simp add: g_mount_spec_set_with_len_def)
    next
      case (Some v')
      from copy [of v'] obtain value_copy where
        "(if value_len = - 1 then Some (g_strdup v') else g_strndup v' (gsize_of_int value_len)) =
          Some value_copy" ..
      with k Some show ?thesis
        by (cases "set_existing (items spec) k' value_copy")
          (auto simp: g_mount_spec_set_with_len_def Let_def split: if_splits)
    qed
  qed
qed

lemma set_with_len_aborts:
  assumes "value_len < - 1" and "- (2 ^ 31) \<le> value_len"
  shows "g_mount_spec_set_with_len spec (Some k) (Some v) value_len = None"
proof -
  have "(value_len + 2 ^ 64) mod 2 ^ 64 = value_len + 2 ^ 64"
    using assms by (intro mod_pos_pos_trivial) simp_all
  then have "value_len mod 2 ^ 64 = value_len + 2 ^ 64"
    by simp
  with assms have "2 ^ 63 \<le> gsize_of_int value_len + 1"
    by (simp add: gsize_of_int_def le_nat_iff)
  with assms(1) show ?thesis
    by (simp add: g_mount_spec_set_with_len_def g_strndup_def)
qed

lemma g_mount_spec_set_eq:
  "g_mount_spec_set_with_len spec k v (- 1) = Some (g_mount_spec_set spec k v)"
  using set_with_len_returns [of "- 1" spec k v]
  by (auto simp: g_mount_spec_set_def)

lemma set_invariant:
  assumes "spec_cstrings spec" and "cstring k" and "cstring v"
  shows "spec_cstrings (g_mount_spec_set spec (Some k) (Some v))"
    and "keys_strictly_sorted (items spec) \<Longrightarrow>
         keys_strictly_sorted (items (g_mount_spec_set spec (Some k) (Some v)))"
  using set_with_len_invariant [OF assms g_mount_spec_set_eq] by simp_all

lemma g_mount_spec_new_None:
  "g_mount_spec_new None =
     \<lparr>ref_count = 1, items = [], mount_prefix = Some ''/'', is_unique = False\<rparr>"
  by (simp add: g_mount_spec_new_def g_strdup_def)

lemma g_mount_spec_new_invariant:
  "keys_strictly_sorted (items (g_mount_spec_new None))"
  "spec_cstrings (g_mount_spec_new None)"
  "cstring t \<Longrightarrow> keys_strictly_sorted (items (g_mount_spec_new (Some t)))"
  "cstring t \<Longrightarrow> spec_cstrings (g_mount_spec_new (Some t))"
proof -
  let ?empty = "\<lparr>ref_count = 1, items = [], mount_prefix = Some ''/'', is_unique = False\<rparr>"
  have e: "spec_cstrings ?empty" "keys_strictly_sorted (items ?empty)"
    by (simp_all add: spec_cstrings_def keys_strictly_sorted_def NUL_def)
  show "keys_strictly_sorted (items (g_mount_spec_new None))"
    "spec_cstrings (g_mount_spec_new None)"
    using e by (simp_all add: g_mount_spec_new_None)
  assume t: "cstring t"
  have ty: "cstring ''type''"
    by (simp add: NUL_def)
  show "keys_strictly_sorted (items (g_mount_spec_new (Some t)))"
    using set_invariant(2) [OF e(1) ty t e(2)]
    by (simp add: g_mount_spec_new_def g_strdup_def)
  show "spec_cstrings (g_mount_spec_new (Some t))"
    using set_invariant(1) [OF e(1) ty t]
    by (simp add: g_mount_spec_new_def g_strdup_def)
qed

lemma new_from_data_items:
  "items (g_mount_spec_new_from_data xs p) = g_array_sort item_compare xs"
  by (simp add: g_mount_spec_new_from_data_def)

lemma new_from_data_prefix:
  "mount_prefix (g_mount_spec_new_from_data xs p) = (case p of None \<Rightarrow> Some ''/'' | Some q \<Rightarrow> Some q)"
  by (simp add: g_mount_spec_new_from_data_def g_strdup_def split: option.splits)

lemma new_from_data_sorted:
  assumes "list_all item_cstrings xs"
  shows "keys_sorted (items (g_mount_spec_new_from_data xs p))"
    and "keys_strictly_sorted (items (g_mount_spec_new_from_data xs p)) \<longleftrightarrow>
         distinct (map item_key xs)"
  using assms
  by (simp_all add: new_from_data_items keys_sorted_g_array_sort keys_strictly_sorted_iff
      distinct_keys_g_array_sort)

section \<open>Escaping and unescaping\<close>

lemma hex_digits:
  "list_all (\<lambda>n. g_ascii_xdigit_value (hex n) = Some n \<and> hex n \<noteq> CHR '','' \<and>
                 hex n \<noteq> CHR ''='' \<and> hex n \<noteq> NUL) [0..<16]"
  by (simp add: upt_rec hex_def g_ascii_xdigit_value_def NUL_def)

lemma xdigit_hex: "n < 16 \<Longrightarrow> g_ascii_xdigit_value (hex n) = Some n"
  using hex_digits unfolding list_all_iff by simp

lemma hex_not_delimiter:
  "n < 16 \<Longrightarrow> hex n \<noteq> CHR '','' \<and> hex n \<noteq> CHR ''='' \<and> hex n \<noteq> NUL"
  using hex_digits unfolding list_all_iff by simp

lemma of_char_less_256: "(of_char c :: nat) < 256"
  by (cases c) simp

lemma unescape_character_hex:
  "unescape_character (hex (of_char c div 16)) (hex (of_char c mod 16)) = Some (of_char c)"
proof -
  have "(of_char c :: nat) div 16 < 16"
    using of_char_less_256 [of c] by arith
  then show ?thesis
    by (simp add: unescape_character_def xdigit_hex)
qed

lemma unescape_Cons:
  "c \<noteq> CHR ''%'' \<Longrightarrow>
   g_uri_unescape_string (c # s) ill = map_option ((#) c) (g_uri_unescape_string s ill)"
  by (cases "(c # s, ill)" rule: g_uri_unescape_string.cases) simp_all

lemma unescape_append:
  "CHR ''%'' \<notin> set xs \<Longrightarrow>
   g_uri_unescape_string (xs @ ys) ill = map_option ((@) xs) (g_uri_unescape_string ys ill)"
proof (induction xs)
  case Nil
  then show ?case by (simp add: option.map_ident)
next
  case (Cons x xs)
  then have "x \<noteq> CHR ''%''" and "CHR ''%'' \<notin> set xs"
    by auto
  then show ?case
    using Cons.IH unescape_Cons [of x "xs @ ys" ill]
    by (simp add: option.map_comp comp_def)
qed

lemma unescape_percent:
  "unescape_character h1 h2 = Some n \<Longrightarrow> n \<noteq> 0 \<Longrightarrow>
   g_uri_unescape_string (CHR ''%'' # h1 # h2 # rest) None =
     map_option ((#) (char_of n)) (g_uri_unescape_string rest None)"
  by simp

lemma utf8_multibyte_len_le: "utf8_multibyte_len s \<le> length s"
  by (auto simp: utf8_multibyte_len_def split: list.splits)

lemma utf8_multibyte_high:
  "c \<in> set (take (utf8_multibyte_len s) s) \<Longrightarrow> 128 \<le> (of_char c :: nat)"
  by (auto simp: utf8_multibyte_len_def utf8_continuation_def split: list.splits if_splits)

lemma is_valid_unreserved:
  "is_valid c None \<Longrightarrow> c \<noteq> CHR ''%'' \<and> c \<noteq> CHR '','' \<and> c \<noteq> CHR ''=''"
  by (auto simp: is_valid_def g_ascii_isalnum_def)

lemma uri_encoder_chars:
  "c \<in> set (uri_encoder s None True) \<Longrightarrow> c \<noteq> CHR '','' \<and> c \<noteq> CHR ''=''"
proof (induction s "None :: string option" True arbitrary: c rule: uri_encoder.induct)
  case 1
  then show ?case by simp
next
  case (2 x s)
  let ?n = "utf8_multibyte_len (x # s)"
  show ?case
  proof (cases "128 \<le> (of_char x :: nat) \<and> 0 < ?n")
    case True
    with 2 have "c \<in> set (take ?n (x # s)) \<or>
        c \<in> set (uri_encoder (drop (?n - 1) s) None True)"
      by auto
    then show ?thesis
    proof
      assume "c \<in> set (take ?n (x # s))"
      then have "128 \<le> (of_char c :: nat)"
        by (rule utf8_multibyte_high)
      then show ?thesis by auto
    next
      assume "c \<in> set (uri_encoder (drop (?n - 1) s) None True)"
      with 2(1) True show ?thesis by simp
    qed
  next
    case False
    have h: "(of_char x :: nat) div 16 < 16" "(of_char x :: nat) mod 16 < 16"
      using of_char_less_256 [of x] by arith+
    show ?thesis
    proof (cases "is_valid x None")
      case True
      with False 2(2,4) is_valid_unreserved [of x] show ?thesis
        by (auto split: if_splits)
    next
      case v: False
      with False 2(3,4) hex_not_delimiter [OF h(1)] hex_not_delimiter [OF h(2)] show ?thesis
        by (auto split: if_splits)
    qed
  qed
qed

lemma unescape_uri_encoder:
  "cstring s \<Longrightarrow> g_uri_unescape_string (uri_encoder s None True) None = Some s"
proof (induction s "None :: string option" True rule: uri_encoder.induct)
  case 1
  then show ?case by simp
next
  case (2 x s)
  let ?n = "utf8_multibyte_len (x # s)"
  show ?case
  proof (cases "128 \<le> (of_char x :: nat) \<and> 0 < ?n")
    case True
    have "CHR ''%'' \<notin> set (take ?n (x # s))"
      using utf8_multibyte_high [of "CHR ''%''" "x # s"] by auto
    moreover have "cstring (drop (?n - 1) s)"
      using "2.prems" by (simp add: cstring_drop)
    moreover have "take ?n (x # s) @ drop (?n - 1) s = x # s"
      using True by (cases ?n) simp_all
    ultimately show ?thesis
      using True 2(1) by (simp add: unescape_append del: take_Suc_Cons)
  next
    case False
    show ?thesis
    proof (cases "is_valid x None")
      case True
      with False 2(2) "2.prems" is_valid_unreserved [of x] show ?thesis
        by (auto simp: unescape_Cons)
    next
      case v: False
      have "(of_char x :: nat) \<noteq> 0"
        using "2.prems" by (simp add: of_char_eq_0_iff)
      with v False 2(3) "2.prems" unescape_character_hex [of x] show ?thesis
        by auto
    qed
  qed
qed

lemma uri_encoder_cstring: "cstring s \<Longrightarrow> cstring (uri_encoder s None True)"
proof (induction s "None :: string option" True rule: uri_encoder.induct)
  case 1
  then show ?case by simp
next
  case (2 x s)
  let ?n = "utf8_multibyte_len (x # s)"
  have h: "(of_char x :: nat) div 16 < 16" "(of_char x :: nat) mod 16 < 16"
    using of_char_less_256 [of x] by arith+
  show ?case
  proof (cases "128 \<le> (of_char x :: nat) \<and> 0 < ?n")
    case True
    have "cstring (take ?n (x # s))"
      using "2.prems" by (rule cstring_take)
    moreover have "cstring (drop (?n - 1) s)"
      using "2.prems" by (simp add: cstring_drop)
    ultimately show ?thesis
      using True 2(1) by (simp del: take_Suc_Cons)
  next
    case False
    with 2 hex_not_delimiter [OF h(1)] hex_not_delimiter [OF h(2)] show ?thesis
      by (auto simp: NUL_def)
  qed
qed

lemma unescape_cstring:
  "g_uri_unescape_string s ill = Some t \<Longrightarrow> cstring s \<Longrightarrow> cstring t"
proof (induction s ill arbitrary: t rule: g_uri_unescape_string.induct)
  case (1 c h1 h2 rest ill)
  show ?case
  proof (cases "c = CHR ''%''")
    case True
    with "1.prems" obtain n t' where n: "unescape_character h1 h2 = Some n" "n \<noteq> 0"
      and ill: "\<not> (case ill of None \<Rightarrow> False | Some i \<Rightarrow> char_of n \<in> set i)"
      and t': "g_uri_unescape_string rest ill = Some t'" "t = char_of n # t'"
      by (auto split: option.splits if_splits)
    have "n < 256"
      using n(1)
      by (auto simp: unescape_character_def g_ascii_xdigit_value_def Let_def
          split: option.splits if_splits)
    with n(2) have "(char_of n :: char) \<noteq> NUL"
      by (metis of_char_eq_0_iff of_char_of mod_less)
    moreover have "cstring t'"
      using "1.IH"(1) [OF True n(1) _ t'(1)] ill n(2) "1.prems"(2) by auto
    ultimately show ?thesis
      using t'(2) by simp
  next
    case False
    with 1 show ?thesis by auto
  qed
qed (auto split: if_splits)

section \<open>Splitting and decoding the text encoding\<close>

lemma split_tokens_not_Nil [simp]: "split_tokens d s \<noteq> []"
  by (induction s) (auto split: list.splits)

lemma split_tokens_no_delimiter: "d \<notin> set s \<Longrightarrow> split_tokens d s = [s]"
  by (induction s) auto

lemma split_tokens_append:
  "d \<notin> set a \<Longrightarrow> split_tokens d (a @ d # b) = a # split_tokens d b"
  by (induction a) auto

lemma split_tokens_subset: "t \<in> set (split_tokens d s) \<Longrightarrow> set t \<subseteq> set s"
proof (induction s arbitrary: t)
  case Nil
  then show ?case by simp
next
  case (Cons c s)
  show ?case
  proof (cases "c = d")
    case True
    with Cons show ?thesis by auto
  next
    case False
    obtain u us where u: "split_tokens d s = u # us"
      by (cases "split_tokens d s") simp_all
    with False Cons.prems have "t = c # u \<or> t \<in> set us"
      by simp
    with u Cons.IH [of u] Cons.IH [of t] show ?thesis
      by auto
  qed
qed

lemma g_strsplit_cstring:
  "cstring s \<Longrightarrow> t \<in> set (g_strsplit s d) \<Longrightarrow> cstring t"
  unfolding cstring_def g_strsplit_def
  using split_tokens_subset [of t d s] by (auto split: if_splits)

lemma split_tokens_concat:
  assumes "\<And>x. x \<in> set xs \<Longrightarrow> d \<notin> set (f x)" and "d \<notin> set z"
  shows "split_tokens d (concat (map (\<lambda>x. f x @ [d]) xs) @ z) = map f xs @ [z]"
  using assms
proof (induction xs)
  case Nil
  then show ?case by (simp add: split_tokens_no_delimiter)
next
  case (Cons x xs)
  then have "split_tokens d (f x @ d # (concat (map (\<lambda>x. f x @ [d]) xs) @ z)) =
      f x # (map f xs @ [z])"
    by (simp add: split_tokens_append)
  then show ?case by simp
qed

lemma decode_kv_pairs_well_formed:
  assumes "list_all well_formed_pair ps" and "list_all cstring ps"
  shows "decode_kv_pairs ps acc pfx =
     Pairs_done
       (acc @ map (\<lambda>p. (pair_key p, Some (pair_value p))) (filter (\<lambda>p. \<not> is_prefix_pair p) ps))
       (if filter is_prefix_pair ps = [] then pfx
        else Some (pair_value (last (filter is_prefix_pair ps))))"
  using assms
proof (induction ps arbitrary: acc pfx)
  case Nil
  then show ?case by simp
next
  case (Cons p ps)
  let ?tokens = "g_strsplit p (CHR ''='')"
  from Cons.prems(1) have len: "g_strv_length ?tokens = 2"
    and "g_uri_unescape_string (?tokens ! 0) None \<noteq> None"
    and "g_uri_unescape_string (?tokens ! 1) None \<noteq> None"
    by (simp_all add: well_formed_pair_def Let_def)
  then have k: "g_uri_unescape_string (?tokens ! 0) None = Some (pair_key p)"
    and v: "g_uri_unescape_string (?tokens ! 1) None = Some (pair_value p)"
    by (auto simp: pair_key_def pair_value_def)
  have "?tokens ! 0 \<in> set ?tokens"
    using len by (simp add: g_strv_length_def)
  with Cons.prems(2) have "cstring (?tokens ! 0)"
    using g_strsplit_cstring [of p "?tokens ! 0" "CHR ''=''"] by simp
  with k have "cstring (pair_key p)"
    using unescape_cstring by blast
  then have cmp: "strcmp (pair_key p) ''__mount_prefix'' = 0 \<longleftrightarrow> is_prefix_pair p"
    by (simp add: strcmp_eq_0_iff is_prefix_pair_def NUL_def)
  have rest: "list_all well_formed_pair ps" "list_all cstring ps"
    using Cons.prems by simp_all
  show ?case
  proof (cases "is_prefix_pair p")
    case True
    with len k v cmp show ?thesis
      by (simp add: Cons.IH [OF rest] Let_def)
  next
    case False
    with len k v cmp show ?thesis
      by (simp add: Cons.IH [OF rest] Let_def)
  qed
qed

lemma decode_kv_pairs_cstrings:
  assumes "decode_kv_pairs ps acc pfx = Pairs_done its pfx'" and "list_all cstring ps"
    and "list_all (\<lambda>(k, v). cstring k \<and> (case v of None \<Rightarrow> True | Some v' \<Rightarrow> cstring v')) acc"
    and "case pfx of None \<Rightarrow> True | Some q \<Rightarrow> cstring q"
  shows "list_all (\<lambda>(k, v). cstring k \<and> (case v of None \<Rightarrow> True | Some v' \<Rightarrow> cstring v')) its \<and>
         (case pfx' of None \<Rightarrow> True | Some q \<Rightarrow> cstring q)"
  using assms
proof (induction ps arbitrary: acc pfx)
  case Nil
  then show ?case by simp
next
  case (Cons p ps)
  let ?tokens = "g_strsplit p (CHR ''='')"
  from Cons.prems(1) have len: "g_strv_length ?tokens = 2"
    by (auto simp: Let_def split: if_splits)
  then have "?tokens ! 0 \<in> set ?tokens" "?tokens ! 1 \<in> set ?tokens"
    by (simp_all add: g_strv_length_def)
  with Cons.prems(2) have c: "cstring (?tokens ! 0)" "cstring (?tokens ! 1)"
    using g_strsplit_cstring [of p _ "CHR ''=''"] by simp_all
  from Cons.prems(1) len obtain k where k: "g_uri_unescape_string (?tokens ! 0) None = Some k"
    by (auto simp: Let_def split: option.splits)
  have ck: "cstring k"
    using unescape_cstring [OF k c(1)] .
  have cv: "case g_uri_unescape_string (?tokens ! 1) None of None \<Rightarrow> True | Some v' \<Rightarrow> cstring v'"
    using unescape_cstring [OF _ c(2)] by (auto split: option.splits)
  show ?case
  proof (cases "strcmp k ''__mount_prefix'' = 0")
    case True
    with Cons.prems(1) len k have
      "decode_kv_pairs ps acc (g_uri_unescape_string (?tokens ! 1) None) = Pairs_done its pfx'"
      by (simp add: Let_def)
    from Cons.IH [OF this _ Cons.prems(3) cv] Cons.prems(2) show ?thesis
      by simp
  next
    case False
    with Cons.prems(1) len k have
      "decode_kv_pairs ps (acc @ [(k, g_uri_unescape_string (?tokens ! 1) None)]) pfx =
         Pairs_done its pfx'"
      by (simp add: Let_def)
    from Cons.IH [OF this _ _ Cons.prems(4)] Cons.prems(2,3) ck cv show ?thesis
      by simp
  qed
qed

lemma new_from_string_Returned:
  assumes "g_mount_spec_new_from_string str = Returned spec" and "cstring str"
  shows "spec_cstrings spec" and "keys_sorted (items spec)"
proof -
  let ?ps = "g_strsplit str (CHR '','')"
  from assms(1) obtain its pfx where d: "decode_kv_pairs ?ps [] None = Pairs_done its pfx"
    and pfx: "pfx \<noteq> None" and vals: "list_all (\<lambda>(k, v). v \<noteq> None) its"
    and spec: "spec = g_mount_spec_new_from_data
        (map (\<lambda>(k, v). \<lparr>item_key = k, item_value = the v\<rparr>) its) pfx"
    by (auto simp: g_mount_spec_new_from_string_def split: kv_pairs_result.splits if_splits)
  have "list_all cstring ?ps"
    using g_strsplit_cstring [OF assms(2)] by (auto simp: list_all_iff)
  from decode_kv_pairs_cstrings [OF d this] have
    c: "list_all (\<lambda>(k, v). cstring k \<and> (case v of None \<Rightarrow> True | Some v' \<Rightarrow> cstring v')) its"
    and cp: "case pfx of None \<Rightarrow> True | Some q \<Rightarrow> cstring q"
    by simp_all
  from c vals have its: "list_all item_cstrings
      (map (\<lambda>(k, v). \<lparr>item_key = k, item_value = the v\<rparr>) its)"
    by (fastforce simp: list_all_iff item_cstrings_def)
  then show "keys_sorted (items spec)"
    by (simp add: spec new_from_data_sorted)
  from its cp pfx show "spec_cstrings spec"
    by (auto simp: spec spec_cstrings_def new_from_data_items new_from_data_prefix
        split: option.splits)
qed

text \<open>
  The loop on pairs that all split in two with a key that unescapes: it runs to the end,
  the pairs keyed \<open>__mount_prefix\<close> set the prefix, the last one last, and the other
  pairs are appended in their order.
\<close>

lemma keyed_pair_is_prefix:
  assumes "keyed_pair p" and "cstring p"
  shows "g_uri_unescape_string (g_strsplit p (CHR ''='') ! 0) None = Some (pair_key p)"
    and "strcmp (pair_key p) ''__mount_prefix'' = 0 \<longleftrightarrow> is_prefix_pair p"
proof -
  let ?tokens = "g_strsplit p (CHR ''='')"
  from assms(1) have len: "g_strv_length ?tokens = 2"
    and "g_uri_unescape_string (?tokens ! 0) None \<noteq> None"
    by (simp_all add: keyed_pair_def Let_def)
  then show k: "g_uri_unescape_string (?tokens ! 0) None = Some (pair_key p)"
    by (auto simp: pair_key_def)
  have "?tokens ! 0 \<in> set ?tokens"
    using len by (simp add: g_strv_length_def)
  with assms(2) have "cstring (?tokens ! 0)"
    using g_strsplit_cstring [of p "?tokens ! 0" "CHR ''=''"] by simp
  with k have "cstring (pair_key p)"
    using unescape_cstring by blast
  then show "strcmp (pair_key p) ''__mount_prefix'' = 0 \<longleftrightarrow> is_prefix_pair p"
    by (simp add: strcmp_eq_0_iff is_prefix_pair_def NUL_def)
qed

lemma decode_kv_pairs_keyed:
  assumes "list_all keyed_pair ps" and "list_all cstring ps"
  shows "decode_kv_pairs ps acc pfx =
     Pairs_done
       (acc @ map (\<lambda>p. (pair_key p, unescaped_value p)) (filter (\<lambda>p. \<not> is_prefix_pair p) ps))
       (if filter is_prefix_pair ps = [] then pfx
        else unescaped_value (last (filter is_prefix_pair ps)))"
  using assms
proof (induction ps arbitrary: acc pfx)
  case Nil
  then show ?case by simp
next
  case (Cons p ps)
  have p: "keyed_pair p" "cstring p"
    using Cons.prems by simp_all
  then have len: "g_strv_length (g_strsplit p (CHR ''='')) = 2"
    by (simp add: keyed_pair_def Let_def)
  have rest: "list_all keyed_pair ps" "list_all cstring ps"
    using Cons.prems by simp_all
  show ?case
  proof (cases "is_prefix_pair p")
    case True
    with len keyed_pair_is_prefix [OF p] show ?thesis
      by (simp add: Cons.IH [OF rest] Let_def unescaped_value_def)
  next
    case False
    with len keyed_pair_is_prefix [OF p] show ?thesis
      by (simp add: Cons.IH [OF rest] Let_def unescaped_value_def)
  qed
qed

text \<open>With a pair that does not, the loop ends at the first such pair.\<close>

lemma decode_kv_pairs_not_keyed:
  assumes "\<not> list_all keyed_pair ps"
  shows "decode_kv_pairs ps acc pfx = Pairs_null_key \<or>
    (\<exists>p \<in> set ps. decode_kv_pairs ps acc pfx = Pairs_invalid p)"
  using assms
proof (induction ps arbitrary: acc pfx)
  case Nil
  then show ?case by simp
next
  case (Cons p ps)
  let ?tokens = "g_strsplit p (CHR ''='')"
  show ?case
  proof (cases "g_strv_length ?tokens = 2")
    case False
    then show ?thesis
      by (simp add: Let_def)
  next
    case len: True
    show ?thesis
    proof (cases "g_uri_unescape_string (?tokens ! 0) None")
      case None
      with len show ?thesis
        by (simp add: Let_def)
    next
      case (Some k)
      with len have "keyed_pair p"
        by (simp add: keyed_pair_def Let_def)
      with Cons.prems have rest: "\<not> list_all keyed_pair ps"
        by simp
      show ?thesis
      proof (cases "strcmp k ''__mount_prefix'' = 0")
        case True
        with len Some Cons.IH [OF rest, of acc "g_uri_unescape_string (?tokens ! 1) None"]
        show ?thesis
          by (auto simp: Let_def)
      next
        case False
        with len Some
          Cons.IH [OF rest, of "acc @ [(k, g_uri_unescape_string (?tokens ! 1) None)]" pfx]
        show ?thesis
          by (auto simp: Let_def)
      qed
    qed
  qed
qed

lemma new_from_string_keyed:
  assumes "cstring str" and "list_all keyed_pair (g_strsplit str (CHR '',''))"
  shows "g_mount_spec_new_from_string str =
     (let prefix_pairs = filter is_prefix_pair (g_strsplit str (CHR '',''));
          other_pairs = filter (\<lambda>p. \<not> is_prefix_pair p) (g_strsplit str (CHR '','')) in
      if prefix_pairs = [] \<or> \<not> value_unescapes (last prefix_pairs)
      then Failed (G_IO_ERROR_INVALID_ARGUMENT (missing_prefix_message str))
      else if list_all value_unescapes other_pairs
      then Returned \<lparr>ref_count = 1,
                     items = g_array_sort item_compare (map pair_item other_pairs),
                     mount_prefix = Some (pair_value (last prefix_pairs)),
                     is_unique = False\<rparr>
      else Returned_null_item_value)"
proof -
  let ?ps = "g_strsplit str (CHR '','')"
  let ?prefix_pairs = "filter is_prefix_pair ?ps"
  let ?other_pairs = "filter (\<lambda>p. \<not> is_prefix_pair p) ?ps"
  let ?its = "map (\<lambda>p. (pair_key p, unescaped_value p)) ?other_pairs"
  have "list_all cstring ?ps"
    using g_strsplit_cstring [OF assms(1)] by (auto simp: list_all_iff)
  from decode_kv_pairs_keyed [OF assms(2) this, of "[]" None]
  have d: "decode_kv_pairs ?ps [] None =
      Pairs_done ?its (if ?prefix_pairs = [] then None else unescaped_value (last ?prefix_pairs))"
    by simp
  have vals: "list_all (\<lambda>(k, v). v \<noteq> None) ?its \<longleftrightarrow> list_all value_unescapes ?other_pairs"
    by (simp add: list_all_iff value_unescapes_def)
  have its: "map (\<lambda>(k, v). \<lparr>item_key = k, item_value = the v\<rparr>) ?its = map pair_item ?other_pairs"
    by (simp add: pair_item_def pair_value_def unescaped_value_def)
  show ?thesis
  proof (cases "?prefix_pairs = [] \<or> \<not> value_unescapes (last ?prefix_pairs)")
    case True
    then have "(if ?prefix_pairs = [] then None else unescaped_value (last ?prefix_pairs)) = None"
      by (auto simp: value_unescapes_def)
    with True show ?thesis
      unfolding g_mount_spec_new_from_string_def d by (simp add: Let_def)
  next
    case False
    then obtain q where q: "unescaped_value (last ?prefix_pairs) = Some q"
      by (auto simp: value_unescapes_def)
    then have pv: "pair_value (last ?prefix_pairs) = q"
      by (simp add: pair_value_def unescaped_value_def)
    have "(if ?prefix_pairs = [] then None else unescaped_value (last ?prefix_pairs)) = Some q"
      using False q by simp
    then have "g_mount_spec_new_from_string str =
        (if list_all (\<lambda>(k, v). v \<noteq> None) ?its
         then Returned (g_mount_spec_new_from_data
                (map (\<lambda>(k, v). \<lparr>item_key = k, item_value = the v\<rparr>) ?its) (Some q))
         else Returned_null_item_value)"
      unfolding g_mount_spec_new_from_string_def d
      by (simp only: kv_pairs_result.case option.distinct if_False)
    then have "g_mount_spec_new_from_string str =
        (if list_all value_unescapes ?other_pairs
         then Returned (g_mount_spec_new_from_data (map pair_item ?other_pairs) (Some q))
         else Returned_null_item_value)"
      by (simp only: vals its)
    with False pv show ?thesis
      by (simp add: Let_def g_mount_spec_new_from_data_def)
  qed
qed

lemma new_from_string_not_keyed:
  assumes "\<not> list_all keyed_pair (g_strsplit str (CHR '',''))"
  shows "g_mount_spec_new_from_string str = Null_key_dereferenced \<or>
    (\<exists>p \<in> set (g_strsplit str (CHR '','')).
       g_mount_spec_new_from_string str =
         Failed (G_IO_ERROR_INVALID_ARGUMENT (invalid_pair_message p)))"
  using decode_kv_pairs_not_keyed [OF assms, of "[]" None]
  by (auto simp: g_mount_spec_new_from_string_def)

section \<open>The text encoding: the claims\<close>

lemma to_string_items_eq:
  "to_string_items acc xs =
     Some (acc @ concat (map (\<lambda>i. (uri_encoder (item_key i) None True @ ''='' @
                                   uri_encoder (item_value i) None True) @ '','') xs))"
  by (induction xs arbitrary: acc)
    (simp_all add: g_uri_escape_string_def append_printf_kv_def)

lemma encoded_pair:
  assumes "cstring k" and "cstring v"
  defines "kv_pair \<equiv> uri_encoder k None True @ ''='' @ uri_encoder v None True"
  shows "well_formed_pair kv_pair" and "pair_key kv_pair = k" and "pair_value kv_pair = v"
    and "CHR '','' \<notin> set kv_pair" and "cstring kv_pair"
proof -
  have "CHR ''='' \<notin> set (uri_encoder k None True)" "CHR ''='' \<notin> set (uri_encoder v None True)"
    using uri_encoder_chars by blast+
  then have tokens: "g_strsplit kv_pair (CHR ''='') =
      [uri_encoder k None True, uri_encoder v None True]"
    by (simp add: kv_pair_def g_strsplit_def split_tokens_append split_tokens_no_delimiter)
  with assms(1,2) show "well_formed_pair kv_pair" "pair_key kv_pair = k" "pair_value kv_pair = v"
    by (simp_all add: well_formed_pair_def pair_key_def pair_value_def g_strv_length_def
        unescape_uri_encoder)
  show "CHR '','' \<notin> set kv_pair"
    using uri_encoder_chars [of "CHR '',''"] by (auto simp: kv_pair_def)
  show "cstring kv_pair"
    using assms(1,2) by (simp add: kv_pair_def uri_encoder_cstring NUL_def)
qed

lemma new_from_string_well_formed:
  assumes "cstring str"
    and "list_all well_formed_pair (g_strsplit str (CHR '',''))"
    and "filter is_prefix_pair (g_strsplit str (CHR '','')) \<noteq> []"
  shows "g_mount_spec_new_from_string str =
     Returned
       (g_mount_spec_new_from_data
          (map pair_item (filter (\<lambda>p. \<not> is_prefix_pair p) (g_strsplit str (CHR '',''))))
          (Some (pair_value (last (filter is_prefix_pair (g_strsplit str (CHR '','')))))))"
proof -
  let ?ps = "g_strsplit str (CHR '','')"
  have "list_all cstring ?ps"
    using g_strsplit_cstring [OF assms(1)] by (auto simp: list_all_iff)
  from decode_kv_pairs_well_formed [OF assms(2) this, of "[]" None] assms(3)
  show ?thesis
    by (simp add: g_mount_spec_new_from_string_def list_all_iff comp_def pair_item_def [abs_def])
qed

text \<open>
  C4 (the code departs from the claim): a pair that does not split on \<open>=\<close> into exactly
  two tokens should make the decoder return null with an invalid-argument error naming
  the pair. On the input \<open>%00=x,badtoken\<close> the decoder never reaches \<open>badtoken\<close>: the key
  \<open>%00\<close> of the first pair does not unescape, \<^verbatim>\<open>g_uri_unescape_string\<close> returns \<^verbatim>\<open>NULL\<close>, and
  the unchecked result is passed to \<^verbatim>\<open>strcmp\<close>.
\<close>

theorem new_from_string_null_key:
  "g_mount_spec_new_from_string ''%00=x,badtoken'' = Null_key_dereferenced"
  by (simp add: g_mount_spec_new_from_string_def g_strsplit_def g_strv_length_def
      unescape_character_def g_ascii_xdigit_value_def)

text \<open>
  Where every key that is reached unescapes, the decoder is strict as the claim says: the
  first pair that does not split into two tokens is named by the error, and a missing
  prefix is reported with the input.
\<close>

lemma decode_kv_pairs_invalid:
  assumes "list_all (\<lambda>p. g_strv_length (g_strsplit p (CHR ''='')) = 2 \<and>
             g_uri_unescape_string (g_strsplit p (CHR ''='') ! 0) None \<noteq> None) ps"
    and "g_strv_length (g_strsplit q (CHR ''='')) \<noteq> 2"
  shows "decode_kv_pairs (ps @ q # rest) acc pfx = Pairs_invalid q"
  using assms by (induction ps arbitrary: acc pfx) (auto simp: Let_def)

lemma new_from_string_invalid_pair:
  assumes "g_strsplit str (CHR '','') = ps @ q # rest"
    and "list_all (\<lambda>p. g_strv_length (g_strsplit p (CHR ''='')) = 2 \<and>
             g_uri_unescape_string (g_strsplit p (CHR ''='') ! 0) None \<noteq> None) ps"
    and "g_strv_length (g_strsplit q (CHR ''='')) \<noteq> 2"
  shows "g_mount_spec_new_from_string str =
           Failed (G_IO_ERROR_INVALID_ARGUMENT (invalid_pair_message q))"
  using decode_kv_pairs_invalid [OF assms(2,3)] assms(1)
  by (simp add: g_mount_spec_new_from_string_def)

lemma new_from_string_missing_prefix:
  assumes "cstring str"
    and "list_all well_formed_pair (g_strsplit str (CHR '',''))"
    and "filter is_prefix_pair (g_strsplit str (CHR '','')) = []"
  shows "g_mount_spec_new_from_string str =
           Failed (G_IO_ERROR_INVALID_ARGUMENT (missing_prefix_message str))"
proof -
  let ?ps = "g_strsplit str (CHR '','')"
  have "list_all cstring ?ps"
    using g_strsplit_cstring [OF assms(1)] by (auto simp: list_all_iff)
  from decode_kv_pairs_well_formed [OF assms(2) this, of "[]" None] assms(3)
  show ?thesis
    by (simp add: g_mount_spec_new_from_string_def)
qed

lemma new_from_string_examples:
  "g_mount_spec_new_from_string ''type=ftp'' =
     Failed (G_IO_ERROR_INVALID_ARGUMENT (missing_prefix_message ''type=ftp''))"
  "g_mount_spec_new_from_string ''badtoken,type=ftp,__mount_prefix=/'' =
     Failed (G_IO_ERROR_INVALID_ARGUMENT (invalid_pair_message ''badtoken''))"
  by (simp_all add: g_mount_spec_new_from_string_def g_strsplit_def g_strv_length_def)




text \<open>
  C2 (as stated): a specification that holds an item under the key \<open>__mount_prefix\<close> does
  not survive the round trip, although neither its keys nor its values contain \<open>=\<close> or
  \<open>,\<close>: the decoder takes the item for the prefix entry.
\<close>

theorem text_round_trip_counterexample:
  "g_mount_spec_to_string
     (Some \<lparr>ref_count = 1,
            items = [\<lparr>item_key = ''__mount_prefix'', item_value = ''x''\<rparr>,
                     \<lparr>item_key = ''type'', item_value = ''ftp''\<rparr>],
            mount_prefix = Some ''/'', is_unique = False\<rparr>) =
     Some ''__mount_prefix=x,type=ftp,__mount_prefix=%2F'' \<and>
   g_mount_spec_new_from_string ''__mount_prefix=x,type=ftp,__mount_prefix=%2F'' =
     Returned \<lparr>ref_count = 1, items = [\<lparr>item_key = ''type'', item_value = ''ftp''\<rparr>],
               mount_prefix = Some ''/'', is_unique = False\<rparr> \<and>
   g_mount_spec_set (g_mount_spec_new (Some ''ftp'')) (Some ''__mount_prefix'') (Some ''x'') =
     \<lparr>ref_count = 1,
      items = [\<lparr>item_key = ''__mount_prefix'', item_value = ''x''\<rparr>,
               \<lparr>item_key = ''type'', item_value = ''ftp''\<rparr>],
      mount_prefix = Some ''/'', is_unique = False\<rparr>"
proof -
  have enc: "g_ascii_isalnum (CHR ''x'')" "g_ascii_isalnum (CHR ''t'')" "g_ascii_isalnum (CHR ''y'')"
    "g_ascii_isalnum (CHR ''p'')" "g_ascii_isalnum (CHR ''e'')" "g_ascii_isalnum (CHR ''f'')"
    "g_ascii_isalnum (CHR ''m'')" "g_ascii_isalnum (CHR ''o'')" "g_ascii_isalnum (CHR ''u'')"
    "g_ascii_isalnum (CHR ''n'')" "g_ascii_isalnum (CHR ''r'')" "g_ascii_isalnum (CHR ''i'')"
    "\<not> g_ascii_isalnum (CHR ''_'')" "\<not> g_ascii_isalnum (CHR ''/'')"
    by (simp_all add: g_ascii_isalnum_def)
  have "g_mount_spec_to_string
     (Some \<lparr>ref_count = 1,
            items = [\<lparr>item_key = ''__mount_prefix'', item_value = ''x''\<rparr>,
                     \<lparr>item_key = ''type'', item_value = ''ftp''\<rparr>],
            mount_prefix = Some ''/'', is_unique = False\<rparr>) =
     Some ''__mount_prefix=x,type=ftp,__mount_prefix=%2F''"
    by (simp add: g_mount_spec_to_string_def g_uri_escape_string_def append_printf_kv_def
        is_valid_def enc hex_def)
  moreover have "g_mount_spec_new_from_string ''__mount_prefix=x,type=ftp,__mount_prefix=%2F'' =
     Returned \<lparr>ref_count = 1, items = [\<lparr>item_key = ''type'', item_value = ''ftp''\<rparr>],
               mount_prefix = Some ''/'', is_unique = False\<rparr>"
    by (simp add: g_mount_spec_new_from_string_def g_strsplit_def g_strv_length_def
        unescape_character_def g_ascii_xdigit_value_def g_mount_spec_new_from_data_def
        g_array_sort_def char_of_eq_iff)
  moreover have "g_mount_spec_set (g_mount_spec_new (Some ''ftp'')) (Some ''__mount_prefix'') (Some ''x'') =
     \<lparr>ref_count = 1,
      items = [\<lparr>item_key = ''__mount_prefix'', item_value = ''x''\<rparr>,
               \<lparr>item_key = ''type'', item_value = ''ftp''\<rparr>],
      mount_prefix = Some ''/'', is_unique = False\<rparr>"
    by (simp add: g_mount_spec_new_def g_mount_spec_set_def g_mount_spec_set_with_len_def
        add_item_def g_array_sort_def g_strdup_def item_compare_def)
  ultimately show ?thesis by simp
qed

text \<open>
  C2 (amended): for every mount spec S whose items are in sorted key order (as every
  constructor leaves them), whose mount prefix is not null and which has no item under
  the key \<open>__mount_prefix\<close>, decoding the text encoding of S succeeds and gives a spec with
  the same items and the same mount prefix as S; keys and values that contain \<open>=\<close> or \<open>,\<close>
  are included, since the encoder escapes both.
\<close>

theorem text_round_trip:
  assumes "spec_cstrings spec" and "mount_prefix spec \<noteq> None" and "keys_sorted (items spec)"
    and "''__mount_prefix'' \<notin> item_key ` set (items spec)"
  shows "\<exists>str spec'. g_mount_spec_to_string (Some spec) = Some str \<and>
           g_mount_spec_new_from_string str = Returned spec' \<and>
           items spec' = items spec \<and> mount_prefix spec' = mount_prefix spec"
proof -
  from assms(2) obtain pfx where pfx: "mount_prefix spec = Some pfx"
    by auto
  from assms(1) have its: "list_all item_cstrings (items spec)" and cp: "cstring pfx"
    by (simp_all add: spec_cstrings_def pfx)
  define text_of :: "GMountSpecItem \<Rightarrow> string" where
    "text_of i = uri_encoder (item_key i) None True @ ''='' @ uri_encoder (item_value i) None True"
    for i
  define final where "final = uri_encoder ''__mount_prefix'' None True @ ''='' @ uri_encoder pfx None True"
  define str where "str = concat (map (\<lambda>i. text_of i @ '','') (items spec)) @ final"
  have to_string: "g_mount_spec_to_string (Some spec) = Some str"
    by (simp add: g_mount_spec_to_string_def to_string_items_eq pfx g_uri_escape_string_def
        append_printf_kv_def str_def final_def text_of_def)
  have item: "well_formed_pair (text_of i) \<and> pair_key (text_of i) = item_key i \<and>
      pair_value (text_of i) = item_value i \<and> CHR '','' \<notin> set (text_of i) \<and> cstring (text_of i)"
    if "i \<in> set (items spec)" for i
  proof -
    from that its have "cstring (item_key i)" "cstring (item_value i)"
      by (auto simp: list_all_iff item_cstrings_def)
    then show ?thesis
      unfolding text_of_def by (intro conjI encoded_pair)
  qed
  have mp: "cstring ''__mount_prefix''"
    by (simp add: NUL_def)
  have fin: "well_formed_pair final" "pair_key final = ''__mount_prefix''"
    "pair_value final = pfx" "CHR '','' \<notin> set final" "cstring final"
    unfolding final_def using encoded_pair [OF mp cp] by blast+
  have "final \<noteq> []"
    by (simp add: final_def)
  then have "str \<noteq> []"
    by (simp add: str_def)
  then have split: "g_strsplit str (CHR '','') = map text_of (items spec) @ [final]"
    unfolding g_strsplit_def str_def
    using split_tokens_concat [of "items spec" "CHR '',''" text_of final] item fin(4)
    by simp
  have cstr: "cstring str"
    using item fin(5) by (auto simp: str_def cstring_def NUL_def)
  have wf: "list_all well_formed_pair (g_strsplit str (CHR '',''))"
    using item fin(1) by (simp add: split list_all_iff)
  have np: "\<not> is_prefix_pair (text_of i)" if "i \<in> set (items spec)" for i
    using item [OF that] that assms(4) unfolding is_prefix_pair_def by (metis imageI)
  have f1: "filter is_prefix_pair (g_strsplit str (CHR '','')) = [final]"
    using np fin(2) by (simp add: split is_prefix_pair_def)
  have f2: "filter (\<lambda>p. \<not> is_prefix_pair p) (g_strsplit str (CHR '','')) = map text_of (items spec)"
    using np fin(2) by (simp add: split is_prefix_pair_def)
  have "map pair_item (map text_of (items spec)) = items spec"
    using item by (simp add: pair_item_def map_idI)
  with new_from_string_well_formed [OF cstr wf] f1 f2 fin(3)
  have "g_mount_spec_new_from_string str =
      Returned (g_mount_spec_new_from_data (items spec) (Some pfx))"
    by simp
  moreover have "items (g_mount_spec_new_from_data (items spec) (Some pfx)) = items spec"
    using assms(3) its by (simp add: new_from_data_items g_array_sort_sorted_id)
  moreover have "mount_prefix (g_mount_spec_new_from_data (items spec) (Some pfx)) = mount_prefix spec"
    by (simp add: new_from_data_prefix pfx)
  ultimately show ?thesis
    using to_string by blast
qed

theorem text_round_trip_witness:
  "spec_cstrings (g_mount_spec_set (g_mount_spec_new (Some ''ftp'')) (Some ''host'') (Some ''a=b,c'')) \<and>
   mount_prefix (g_mount_spec_set (g_mount_spec_new (Some ''ftp'')) (Some ''host'') (Some ''a=b,c'')) =
     Some ''/'' \<and>
   keys_sorted (items (g_mount_spec_set (g_mount_spec_new (Some ''ftp'')) (Some ''host'') (Some ''a=b,c''))) \<and>
   ''__mount_prefix'' \<notin> item_key `
     set (items (g_mount_spec_set (g_mount_spec_new (Some ''ftp'')) (Some ''host'') (Some ''a=b,c''))) \<and>
   (\<exists>str spec'.
      g_mount_spec_to_string
        (Some (g_mount_spec_set (g_mount_spec_new (Some ''ftp'')) (Some ''host'') (Some ''a=b,c''))) =
        Some str \<and>
      g_mount_spec_new_from_string str = Returned spec' \<and>
      items spec' = [\<lparr>item_key = ''host'', item_value = ''a=b,c''\<rparr>,
                     \<lparr>item_key = ''type'', item_value = ''ftp''\<rparr>] \<and>
      mount_prefix spec' = Some ''/'')"
proof -
  let ?spec = "g_mount_spec_set (g_mount_spec_new (Some ''ftp'')) (Some ''host'') (Some ''a=b,c'')"
  have spec: "?spec =
      \<lparr>ref_count = 1,
       items = [\<lparr>item_key = ''host'', item_value = ''a=b,c''\<rparr>,
                \<lparr>item_key = ''type'', item_value = ''ftp''\<rparr>],
       mount_prefix = Some ''/'', is_unique = False\<rparr>"
    by (simp add: g_mount_spec_new_def g_mount_spec_set_def g_mount_spec_set_with_len_def
        add_item_def g_array_sort_def g_strdup_def item_compare_def)
  have h: "spec_cstrings ?spec" "mount_prefix ?spec \<noteq> None" "keys_sorted (items ?spec)"
    "''__mount_prefix'' \<notin> item_key ` set (items ?spec)"
    by (simp_all add: spec spec_cstrings_def item_cstrings_def keys_sorted_def NUL_def)
  from text_round_trip [OF h] h show ?thesis
    by (simp add: spec)
qed

section \<open>The wire encoding: encoding and decoding\<close>

lemma foldl_to_dbus_item: "foldl to_dbus_item array_iter xs = array_iter @ map wire_item xs"
  by (induction xs arbitrary: array_iter)
    (simp_all add: to_dbus_item_def wire_item_def dbus_message_iter_open_container_def
      dbus_message_iter_append_string_def g_dbus_message_iter_append_cstring_def close_struct_def)

lemma to_dbus_with_path_eq:
  "g_mount_spec_to_dbus_with_path iter spec path =
     iter @ [DBusStruct [DBusCString (case path of Some p \<Rightarrow> p | None \<Rightarrow> []),
                         DBusArray DBUS_TYPE_STRUCT (map wire_item (items spec))]]"
  by (simp add: g_mount_spec_to_dbus_with_path_def foldl_to_dbus_item close_struct_def
      close_array_def dbus_message_iter_open_container_def g_dbus_message_iter_append_cstring_def)

lemma from_dbus_items_wire_Cons:
  "from_dbus_items (wire_item x # array_iter) spec =
     from_dbus_items array_iter (spec\<lparr>items := items spec @ [x]\<rparr>)"
  by (simp add: wire_item_def dbus_message_iter_recurse_def add_item_def g_strdup_def)

lemma from_dbus_items_wire:
  "from_dbus_items (map wire_item xs) spec = spec\<lparr>items := items spec @ xs\<rparr>"
  by (induction xs arbitrary: spec)
    (simp_all add: from_dbus_items_wire_Cons del: from_dbus_items.simps(2))

lemma from_dbus_to_dbus:
  assumes "list_all item_cstrings (items spec)" and "keys_sorted (items spec)"
  shows "g_mount_spec_from_dbus (g_mount_spec_to_dbus [] spec @ rest) =
     (Some \<lparr>ref_count = 1, items = items spec,
            mount_prefix = Some (case mount_prefix spec of Some p \<Rightarrow> p | None \<Rightarrow> []),
            is_unique = False\<rparr>, rest)"
  using assms
  by (simp add: g_mount_spec_to_dbus_def to_dbus_with_path_eq g_mount_spec_from_dbus_def
      dbus_message_iter_get_arg_type_def dbus_message_iter_get_element_type_def
      dbus_message_iter_recurse_def dbus_message_iter_next_def from_dbus_items_wire
      g_mount_spec_new_None g_array_sort_sorted_id)

lemma get_args_cstrings:
  "g_dbus_message_iter_get_args iter types = Some (vs, iter') \<Longrightarrow>
   list_all dbus_cstrings iter \<Longrightarrow> list_all cstring vs"
  by (induction iter types arbitrary: vs iter' rule: g_dbus_message_iter_get_args.induct) auto

lemma from_dbus_items_cstrings:
  "list_all dbus_cstrings array_iter \<Longrightarrow> list_all item_cstrings (items spec) \<Longrightarrow>
   list_all item_cstrings (items (from_dbus_items array_iter spec))"
proof (induction array_iter spec rule: from_dbus_items.induct)
  case (1 spec)
  then show ?case by simp
next
  case (2 v array_iter spec)
  show ?case
  proof (cases "dbus_value_type v = DBUS_TYPE_STRUCT")
    case False
    with 2 show ?thesis by simp
  next
    case True
    then obtain members where v: "v = DBusStruct members"
      by (cases v) simp_all
    let ?args = "g_dbus_message_iter_get_args members [DBUS_TYPE_STRING, G_DBUS_TYPE_CSTRING]"
    let ?spec' = "case ?args of
        Some ([k, v'], struct_iter') \<Rightarrow> add_item spec (Some k) (Some v')
      | _ \<Rightarrow> spec"
    have members: "list_all dbus_cstrings members"
      using "2.prems"(1) by (simp add: v list_all_iff)
    have added: "list_all item_cstrings (items (add_item spec (Some k) (Some v')))"
      if "cstring k" and "cstring v'" for k v'
      using that "2.prems"(2) by (simp add: add_item_def item_cstrings_def [abs_def] g_strdup_def)
    have "list_all item_cstrings (items ?spec')"
    proof (cases ?args)
      case None
      with "2.prems"(2) show ?thesis by simp
    next
      case (Some r)
      obtain vs it where r: "r = (vs, it)"
        by (cases r)
      from get_args_cstrings [OF Some [unfolded r] members] have "list_all cstring vs" .
      with Some r "2.prems"(2) added show ?thesis
        by (auto split: list.splits)
    qed
    moreover have "from_dbus_items (v # array_iter) spec = from_dbus_items array_iter ?spec'"
      using True by (simp add: v dbus_message_iter_recurse_def)
    ultimately show ?thesis
      using "2.IH" [OF True refl refl] "2.prems"(1)
      by (simp add: v dbus_message_iter_recurse_def)
  qed
qed

lemma from_dbus_sorted:
  assumes "g_mount_spec_from_dbus iter = (Some spec, iter')" and "list_all dbus_cstrings iter"
  shows "keys_sorted (items spec)"
proof -
  from assms(1) obtain members rest where iter: "iter = DBusStruct members # rest"
    by (cases iter; cases "hd iter")
      (auto simp: g_mount_spec_from_dbus_def dbus_message_iter_get_arg_type_def)
  from assms(1) obtain pfx spec_iter' where
    args: "g_dbus_message_iter_get_args members [G_DBUS_TYPE_CSTRING] = Some ([pfx], spec_iter')"
    by (auto simp: g_mount_spec_from_dbus_def iter dbus_message_iter_get_arg_type_def
        dbus_message_iter_recurse_def split: option.splits list.splits)
  have members: "list_all dbus_cstrings members"
    using assms(2) by (simp add: iter list_all_iff)
  have rest_c: "list_all dbus_cstrings spec_iter'"
    using args members
    by (cases members; cases "hd members") (auto split: option.splits)
  let ?array = "dbus_message_iter_recurse spec_iter'"
  let ?spec0 = "(g_mount_spec_new None)\<lparr>mount_prefix := Some pfx\<rparr>"
  from assms(1) args have spec: "spec =
      (from_dbus_items ?array ?spec0)
        \<lparr>items := g_array_sort item_compare (items (from_dbus_items ?array ?spec0))\<rparr>"
    by (auto simp: g_mount_spec_from_dbus_def iter dbus_message_iter_get_arg_type_def
        dbus_message_iter_recurse_def Let_def split: if_splits)
  have "list_all dbus_cstrings ?array"
    using rest_c
    by (cases spec_iter'; cases "hd spec_iter'")
      (auto simp: dbus_message_iter_recurse_def list_all_iff)
  then have "list_all item_cstrings (items (from_dbus_items ?array ?spec0))"
    by (rule from_dbus_items_cstrings) (simp add: g_mount_spec_new_None)
  then show ?thesis
    by (simp add: spec keys_sorted_g_array_sort)
qed

text \<open>
  C8 (as stated): a specification whose mount prefix is null does not come back equal:
  the encoder writes the empty string for a null path, and the decoder returns the empty
  string as prefix.
\<close>

theorem wire_round_trip_counterexample:
  "mount_prefix (g_mount_spec_set_mount_prefix (g_mount_spec_new (Some ''ftp'')) None) = None \<and>
   g_mount_spec_from_dbus
     (g_mount_spec_to_dbus [] (g_mount_spec_set_mount_prefix (g_mount_spec_new (Some ''ftp'')) None)) =
     (Some \<lparr>ref_count = 1, items = [\<lparr>item_key = ''type'', item_value = ''ftp''\<rparr>],
            mount_prefix = Some [], is_unique = False\<rparr>, [])"
proof -
  have spec: "g_mount_spec_set_mount_prefix (g_mount_spec_new (Some ''ftp'')) None =
      \<lparr>ref_count = 1, items = [\<lparr>item_key = ''type'', item_value = ''ftp''\<rparr>],
       mount_prefix = None, is_unique = False\<rparr>"
    by (simp add: g_mount_spec_set_mount_prefix_def g_mount_spec_new_def g_mount_spec_set_def
        g_mount_spec_set_with_len_def add_item_def g_array_sort_def g_strdup_def)
  have "list_all item_cstrings [\<lparr>item_key = ''type'', item_value = ''ftp''\<rparr>]"
    "keys_sorted [\<lparr>item_key = ''type'', item_value = ''ftp''\<rparr>]"
    by (simp_all add: item_cstrings_def keys_sorted_def NUL_def)
  then show ?thesis
    using from_dbus_to_dbus [of "g_mount_spec_set_mount_prefix (g_mount_spec_new (Some ''ftp'')) None" "[]"]
    by (simp add: spec)
qed

text \<open>
  C8 (amended): encoding S emits a struct of the path (the mount prefix of S as a
  C string, the empty string when the prefix is null) and an array of (key, value)
  structs in the order of the items. For every mount spec S whose items are in sorted
  key order (as every constructor leaves them), \<open>g_mount_spec_from_dbus\<close> applied to that
  message returns a spec with the same items as S, and with the same mount prefix as S
  when that prefix is not null; for a null prefix the decoded prefix is the empty string.
\<close>

theorem wire_round_trip:
  assumes "spec_cstrings spec" and "keys_sorted (items spec)"
  shows "g_mount_spec_to_dbus iter spec =
           iter @ [DBusStruct
                     [DBusCString (case mount_prefix spec of Some p \<Rightarrow> p | None \<Rightarrow> []),
                      DBusArray DBUS_TYPE_STRUCT
                        (map (\<lambda>item. DBusStruct [DBusString (item_key item),
                                                  DBusCString (item_value item)])
                           (items spec))]] \<and>
         (\<exists>spec'. g_mount_spec_from_dbus (g_mount_spec_to_dbus [] spec @ rest) = (Some spec', rest) \<and>
                   items spec' = items spec \<and>
                   mount_prefix spec' =
                     (case mount_prefix spec of Some p \<Rightarrow> Some p | None \<Rightarrow> Some []))"
proof -
  have "g_mount_spec_to_dbus iter spec =
      iter @ [DBusStruct
                [DBusCString (case mount_prefix spec of Some p \<Rightarrow> p | None \<Rightarrow> []),
                 DBusArray DBUS_TYPE_STRUCT
                   (map (\<lambda>item. DBusStruct [DBusString (item_key item),
                                             DBusCString (item_value item)])
                      (items spec))]]"
    by (simp add: g_mount_spec_to_dbus_def to_dbus_with_path_eq wire_item_def [abs_def])
  moreover from assms have "g_mount_spec_from_dbus (g_mount_spec_to_dbus [] spec @ rest) =
     (Some \<lparr>ref_count = 1, items = items spec,
            mount_prefix = Some (case mount_prefix spec of Some p \<Rightarrow> p | None \<Rightarrow> []),
            is_unique = False\<rparr>, rest)"
    by (intro from_dbus_to_dbus) (simp_all add: spec_cstrings_def)
  ultimately show ?thesis
    by (auto split: option.splits)
qed

theorem wire_round_trip_witness:
  "spec_cstrings (g_mount_spec_new (Some ''ftp'')) \<and>
   keys_sorted (items (g_mount_spec_new (Some ''ftp''))) \<and>
   g_mount_spec_to_dbus [] (g_mount_spec_new (Some ''ftp'')) =
     [DBusStruct [DBusCString ''/'',
                  DBusArray DBUS_TYPE_STRUCT [DBusStruct [DBusString ''type'', DBusCString ''ftp'']]]] \<and>
   (\<exists>spec'. g_mount_spec_from_dbus (g_mount_spec_to_dbus [] (g_mount_spec_new (Some ''ftp'')) @ [DBusOther 7]) =
              (Some spec', [DBusOther 7]) \<and>
            items spec' = [\<lparr>item_key = ''type'', item_value = ''ftp''\<rparr>] \<and>
            mount_prefix spec' = Some ''/'')"
proof -
  have spec: "g_mount_spec_new (Some ''ftp'') =
      \<lparr>ref_count = 1, items = [\<lparr>item_key = ''type'', item_value = ''ftp''\<rparr>],
       mount_prefix = Some ''/'', is_unique = False\<rparr>"
    by (simp add: g_mount_spec_new_def g_mount_spec_set_def g_mount_spec_set_with_len_def
        add_item_def g_array_sort_def g_strdup_def)
  have h: "spec_cstrings (g_mount_spec_new (Some ''ftp''))"
    "keys_sorted (items (g_mount_spec_new (Some ''ftp'')))"
    by (simp_all add: spec spec_cstrings_def item_cstrings_def keys_sorted_def NUL_def)
  note t = wire_round_trip [OF h, of "[]" "[DBusOther 7]"]
  from t have a: "g_mount_spec_to_dbus [] (g_mount_spec_new (Some ''ftp'')) =
     [DBusStruct [DBusCString ''/'',
                  DBusArray DBUS_TYPE_STRUCT [DBusStruct [DBusString ''type'', DBusCString ''ftp'']]]]"
    by (simp add: spec)
  from t obtain spec' where
    "g_mount_spec_from_dbus (g_mount_spec_to_dbus [] (g_mount_spec_new (Some ''ftp'')) @ [DBusOther 7]) =
       (Some spec', [DBusOther 7])"
    "items spec' = [\<lparr>item_key = ''type'', item_value = ''ftp''\<rparr>]"
    "mount_prefix spec' = Some ''/''"
    by (auto simp: spec)
  with h a show ?thesis
    by blast
qed

section \<open>The sort invariant of the item store\<close>

lemma get_args_key_value:
  "g_dbus_message_iter_get_args members [DBUS_TYPE_STRING, G_DBUS_TYPE_CSTRING] =
     (case members of
        DBusString k # DBusCString v # others \<Rightarrow> Some ([k, v], others)
      | _ \<Rightarrow> None)"
proof (cases members)
  case Nil
  then show ?thesis by simp
next
  case (Cons x xs)
  show ?thesis
  proof (cases x)
    case (DBusString k)
    show ?thesis
    proof (cases xs)
      case Nil
      with Cons DBusString show ?thesis by simp
    next
      case (Cons y ys)
      with \<open>members = x # xs\<close> DBusString show ?thesis
        by (cases y) simp_all
    qed
  qed (simp_all add: Cons)
qed

lemma from_dbus_items_read_entries:
  "from_dbus_items elems spec = spec\<lparr>items := items spec @ read_entries elems\<rparr>"
  by (induction elems arbitrary: spec rule: read_entries.induct)
    (simp_all add: dbus_message_iter_recurse_def add_item_def g_strdup_def get_args_key_value
      del: g_dbus_message_iter_get_args.simps split: dbus_value.splits list.splits)

lemma read_entries_wire_items [simp]: "read_entries (map wire_item xs) = xs"
  by (induction xs) (simp_all add: wire_item_def)

lemma read_entries_cstrings:
  "list_all dbus_cstrings elems \<Longrightarrow> list_all item_cstrings (read_entries elems)"
  by (induction elems rule: read_entries.induct) (simp_all add: item_cstrings_def)

lemma from_dbus_array:
  "g_mount_spec_from_dbus
     (DBusStruct (DBusCString pfx # DBusArray DBUS_TYPE_STRUCT elems # others) # rest) =
     (Some \<lparr>ref_count = 1, items = g_array_sort item_compare (read_entries elems),
            mount_prefix = Some pfx, is_unique = False\<rparr>, rest)"
  by (simp add: g_mount_spec_from_dbus_def dbus_message_iter_get_arg_type_def
      dbus_message_iter_get_element_type_def dbus_message_iter_recurse_def
      dbus_message_iter_next_def from_dbus_items_read_entries g_mount_spec_new_None)

lemma from_dbus_Some:
  assumes "g_mount_spec_from_dbus iter = (Some spec, iter')"
  shows "\<exists>pfx elems others.
    iter = DBusStruct (DBusCString pfx # DBusArray DBUS_TYPE_STRUCT elems # others) # iter'"
proof -
  from assms obtain members rest where iter: "iter = DBusStruct members # rest"
    by (cases iter; cases "hd iter")
      (auto simp: g_mount_spec_from_dbus_def dbus_message_iter_get_arg_type_def)
  from assms obtain pfx spec_iter' where
    args: "g_dbus_message_iter_get_args members [G_DBUS_TYPE_CSTRING] = Some ([pfx], spec_iter')"
    by (auto simp: g_mount_spec_from_dbus_def iter dbus_message_iter_get_arg_type_def
        dbus_message_iter_recurse_def split: option.splits list.splits)
  then have members: "members = DBusCString pfx # spec_iter'"
    by (cases members; cases "hd members") (auto split: option.splits)
  from assms args have types: "dbus_message_iter_get_arg_type spec_iter' = DBUS_TYPE_ARRAY"
    "dbus_message_iter_get_element_type spec_iter' = DBUS_TYPE_STRUCT"
    and advanced: "iter' = dbus_message_iter_next iter"
    by (auto simp: g_mount_spec_from_dbus_def iter dbus_message_iter_get_arg_type_def
        dbus_message_iter_recurse_def Let_def split: if_splits)
  from types obtain elems others where "spec_iter' = DBusArray DBUS_TYPE_STRUCT elems # others"
    by (cases spec_iter'; cases "hd spec_iter'")
      (auto simp: dbus_message_iter_get_arg_type_def dbus_message_iter_get_element_type_def)
  with members iter advanced show ?thesis
    by (simp add: dbus_message_iter_next_def)
qed

lemma from_dbus_strict:
  assumes "g_mount_spec_from_dbus iter = (Some spec, iter')" and "list_all dbus_cstrings iter"
  shows "\<exists>pfx elems others.
    iter = DBusStruct (DBusCString pfx # DBusArray DBUS_TYPE_STRUCT elems # others) # iter' \<and>
    items spec = g_array_sort item_compare (read_entries elems) \<and>
    (keys_strictly_sorted (items spec) \<longleftrightarrow> distinct (map item_key (read_entries elems)))"
proof -
  from from_dbus_Some [OF assms(1)] obtain pfx elems others where
    iter: "iter = DBusStruct (DBusCString pfx # DBusArray DBUS_TYPE_STRUCT elems # others) # iter'"
    by blast
  with assms(1) have its: "items spec = g_array_sort item_compare (read_entries elems)"
    by (auto simp: from_dbus_array)
  have "list_all dbus_cstrings elems"
    using assms(2) by (simp add: iter list_all_iff)
  then have "list_all item_cstrings (read_entries elems)"
    by (rule read_entries_cstrings)
  then have "keys_strictly_sorted (items spec) \<longleftrightarrow> distinct (map item_key (read_entries elems))"
    by (simp add: its keys_strictly_sorted_iff keys_sorted_g_array_sort distinct_keys_g_array_sort)
  with iter its show ?thesis
    by blast
qed

lemma new_from_string_strict:
  assumes "g_mount_spec_new_from_string str = Returned spec" and "cstring str"
  shows "items spec =
      g_array_sort item_compare
        (map pair_item (filter (\<lambda>p. \<not> is_prefix_pair p) (g_strsplit str (CHR '','')))) \<and>
    (keys_strictly_sorted (items spec) \<longleftrightarrow>
       distinct (map pair_key (filter (\<lambda>p. \<not> is_prefix_pair p) (g_strsplit str (CHR '','')))))"
proof -
  let ?others = "filter (\<lambda>p. \<not> is_prefix_pair p) (g_strsplit str (CHR '',''))"
  have "list_all keyed_pair (g_strsplit str (CHR '',''))"
    using new_from_string_not_keyed [of str] assms(1) by auto
  from new_from_string_keyed [OF assms(2) this] assms(1)
  have its: "items spec = g_array_sort item_compare (map pair_item ?others)"
    by (auto simp: Let_def split: if_splits)
  have "list_all item_cstrings (items spec)"
    using new_from_string_Returned(1) [OF assms] by (simp add: spec_cstrings_def)
  then have "list_all item_cstrings (map pair_item ?others)"
    by (simp add: its)
  then have "keys_strictly_sorted (g_array_sort item_compare (map pair_item ?others)) \<longleftrightarrow>
      distinct (map item_key (map pair_item ?others))"
    by (simp add: keys_strictly_sorted_iff keys_sorted_g_array_sort distinct_keys_g_array_sort)
  moreover have "item_key \<circ> pair_item = pair_key"
    by (simp add: fun_eq_iff pair_item_def)
  ultimately show ?thesis
    using its by simp
qed

text \<open>
  C3 (as stated): the decoders and the bulk constructor sort the items but do not remove
  duplicate keys: two entries under one key stay side by side, so the keys are not
  strictly increasing.
\<close>

theorem item_store_sorted_counterexample:
  "g_mount_spec_new_from_string ''a=1,a=2,__mount_prefix=/'' =
     Returned \<lparr>ref_count = 1,
               items = [\<lparr>item_key = ''a'', item_value = ''1''\<rparr>,
                        \<lparr>item_key = ''a'', item_value = ''2''\<rparr>],
               mount_prefix = Some ''/'', is_unique = False\<rparr> \<and>
   g_mount_spec_from_dbus
     [DBusStruct [DBusCString ''/'',
                  DBusArray DBUS_TYPE_STRUCT
                    [DBusStruct [DBusString ''a'', DBusCString ''1''],
                     DBusStruct [DBusString ''a'', DBusCString ''2'']]]] =
     (Some \<lparr>ref_count = 1,
            items = [\<lparr>item_key = ''a'', item_value = ''1''\<rparr>,
                     \<lparr>item_key = ''a'', item_value = ''2''\<rparr>],
            mount_prefix = Some ''/'', is_unique = False\<rparr>, []) \<and>
   items (g_mount_spec_new_from_data
            [\<lparr>item_key = ''a'', item_value = ''1''\<rparr>, \<lparr>item_key = ''a'', item_value = ''2''\<rparr>]
            None) =
     [\<lparr>item_key = ''a'', item_value = ''1''\<rparr>, \<lparr>item_key = ''a'', item_value = ''2''\<rparr>] \<and>
   \<not> keys_strictly_sorted
       [\<lparr>item_key = ''a'', item_value = ''1''\<rparr>, \<lparr>item_key = ''a'', item_value = ''2''\<rparr>]"
proof -
  have "g_mount_spec_new_from_string ''a=1,a=2,__mount_prefix=/'' =
     Returned \<lparr>ref_count = 1,
               items = [\<lparr>item_key = ''a'', item_value = ''1''\<rparr>,
                        \<lparr>item_key = ''a'', item_value = ''2''\<rparr>],
               mount_prefix = Some ''/'', is_unique = False\<rparr>"
    by (simp add: g_mount_spec_new_from_string_def g_strsplit_def g_strv_length_def
        g_mount_spec_new_from_data_def g_array_sort_def item_compare_def)
  moreover have "g_mount_spec_from_dbus
     [DBusStruct [DBusCString ''/'',
                  DBusArray DBUS_TYPE_STRUCT
                    [DBusStruct [DBusString ''a'', DBusCString ''1''],
                     DBusStruct [DBusString ''a'', DBusCString ''2'']]]] =
     (Some \<lparr>ref_count = 1,
            items = [\<lparr>item_key = ''a'', item_value = ''1''\<rparr>,
                     \<lparr>item_key = ''a'', item_value = ''2''\<rparr>],
            mount_prefix = Some ''/'', is_unique = False\<rparr>, [])"
    by (simp add: g_mount_spec_from_dbus_def dbus_message_iter_get_arg_type_def
        dbus_message_iter_get_element_type_def dbus_message_iter_recurse_def
        dbus_message_iter_next_def g_mount_spec_new_None add_item_def g_strdup_def
        g_array_sort_def item_compare_def)
  moreover have "items (g_mount_spec_new_from_data
            [\<lparr>item_key = ''a'', item_value = ''1''\<rparr>, \<lparr>item_key = ''a'', item_value = ''2''\<rparr>]
            None) =
     [\<lparr>item_key = ''a'', item_value = ''1''\<rparr>, \<lparr>item_key = ''a'', item_value = ''2''\<rparr>]"
    by (simp add: g_mount_spec_new_from_data_def g_array_sort_def item_compare_def)
  moreover have "\<not> keys_strictly_sorted
       [\<lparr>item_key = ''a'', item_value = ''1''\<rparr>, \<lparr>item_key = ''a'', item_value = ''2''\<rparr>]"
    by (simp add: keys_strictly_sorted_def)
  ultimately show ?thesis by simp
qed

text \<open>
  C3 (amended): \<open>g_mount_spec_set\<close> keeps the invariant: on an item store whose keys are
  strictly increasing in byte-wise lexicographic order it leaves the keys strictly
  increasing, which is to say in order with no two items sharing a key; so does
  \<open>g_mount_spec_set_with_len\<close> for every \<open>value_len\<close> from \<open>- 1\<close> up, and for a \<open>value_len\<close> below
  \<open>- 1\<close> it does not return. The store of \<open>g_mount_spec_new\<close> is such a store. The bulk
  constructor and both decoders store every entry they are given (the array given; the
  pairs of the text that are not keyed \<open>__mount_prefix\<close>; the entries read from the wire
  array) and sort: the keys of the result are in non-decreasing order, and they are
  strictly increasing, with no two items sharing a key, exactly when the keys given are
  pairwise different.
\<close>

theorem item_store_sorted:
  "(spec_cstrings spec \<and> cstring k \<and> cstring v \<and> keys_strictly_sorted (items spec) \<longrightarrow>
      keys_strictly_sorted (items (g_mount_spec_set spec (Some k) (Some v))) \<and>
      (- 1 \<le> value_len \<and> value_len < 2 ^ 31 \<longrightarrow>
         (\<exists>spec'. g_mount_spec_set_with_len spec (Some k) (Some v) value_len = Some spec' \<and>
                  keys_strictly_sorted (items spec'))) \<and>
      (- (2 ^ 31) \<le> value_len \<and> value_len < - 1 \<longrightarrow>
         g_mount_spec_set_with_len spec (Some k) (Some v) value_len = None)) \<and>
   keys_strictly_sorted (items (g_mount_spec_new None)) \<and>
   (cstring t \<longrightarrow> keys_strictly_sorted (items (g_mount_spec_new (Some t)))) \<and>
   (list_all item_cstrings xs \<longrightarrow>
      keys_sorted (items (g_mount_spec_new_from_data xs p)) \<and>
      (keys_strictly_sorted (items (g_mount_spec_new_from_data xs p)) \<longleftrightarrow>
         distinct (map item_key xs))) \<and>
   (cstring str \<and> g_mount_spec_new_from_string str = Returned spec1 \<longrightarrow>
      keys_sorted (items spec1) \<and>
      items spec1 =
        g_array_sort item_compare
          (map pair_item (filter (\<lambda>p. \<not> is_prefix_pair p) (g_strsplit str (CHR '','')))) \<and>
      (keys_strictly_sorted (items spec1) \<longleftrightarrow>
         distinct (map pair_key (filter (\<lambda>p. \<not> is_prefix_pair p) (g_strsplit str (CHR '','')))))) \<and>
   (list_all dbus_cstrings iter \<and> g_mount_spec_from_dbus iter = (Some spec2, iter') \<longrightarrow>
      keys_sorted (items spec2) \<and>
      (\<exists>pfx elems others.
         iter = DBusStruct (DBusCString pfx # DBusArray DBUS_TYPE_STRUCT elems # others) # iter' \<and>
         items spec2 = g_array_sort item_compare (read_entries elems) \<and>
         (keys_strictly_sorted (items spec2) \<longleftrightarrow>
            distinct (map item_key (read_entries elems))))) \<and>
   (keys_strictly_sorted ys \<longleftrightarrow> keys_sorted ys \<and> distinct (map item_key ys))"
proof -
  have "\<exists>spec'. g_mount_spec_set_with_len spec (Some k) (Some v) value_len = Some spec' \<and>
      keys_strictly_sorted (items spec')"
    if "spec_cstrings spec" "cstring k" "cstring v" "keys_strictly_sorted (items spec)"
      "- 1 \<le> value_len" "value_len < 2 ^ 31"
  proof -
    from set_with_len_returns [OF that(5,6)] obtain spec' where
      "g_mount_spec_set_with_len spec (Some k) (Some v) value_len = Some spec'"
      by blast
    with set_with_len_invariant(2) [OF that(1,2,3) this that(4)] show ?thesis
      by blast
  qed
  then show ?thesis
    using set_invariant(2) [of spec k v]
      set_with_len_aborts [of value_len spec k v]
      g_mount_spec_new_invariant(1)
      g_mount_spec_new_invariant(3) [of t]
      new_from_data_sorted [of xs p]
      new_from_string_Returned(2) [of str spec1]
      new_from_string_strict [of str spec1]
      from_dbus_sorted [of iter spec2 iter']
      from_dbus_strict [of iter spec2 iter']
      keys_strictly_sorted_iff [of ys]
    by blast
qed

theorem item_store_sorted_witness:
  "spec_cstrings (g_mount_spec_new (Some ''ftp'')) \<and> cstring ''host'' \<and> cstring ''h'' \<and>
   keys_strictly_sorted (items (g_mount_spec_new (Some ''ftp''))) \<and>
   keys_strictly_sorted
     (items (g_mount_spec_set (g_mount_spec_new (Some ''ftp'')) (Some ''host'') (Some ''h''))) \<and>
   (\<exists>spec'. g_mount_spec_set_with_len (g_mount_spec_new (Some ''ftp'')) (Some ''host'') (Some ''h'') 1 =
              Some spec' \<and> keys_strictly_sorted (items spec')) \<and>
   g_mount_spec_set_with_len (g_mount_spec_new (Some ''ftp'')) (Some ''host'') (Some ''h'') (- 2) =
     None \<and>
   list_all item_cstrings
     [\<lparr>item_key = ''b'', item_value = ''1''\<rparr>, \<lparr>item_key = ''a'', item_value = ''2''\<rparr>] \<and>
   keys_strictly_sorted
     (items (g_mount_spec_new_from_data
        [\<lparr>item_key = ''b'', item_value = ''1''\<rparr>, \<lparr>item_key = ''a'', item_value = ''2''\<rparr>] None)) \<and>
   cstring ''type=ftp,host=h,__mount_prefix=/'' \<and>
   g_mount_spec_new_from_string ''type=ftp,host=h,__mount_prefix=/'' =
     Returned \<lparr>ref_count = 1,
               items = [\<lparr>item_key = ''host'', item_value = ''h''\<rparr>,
                        \<lparr>item_key = ''type'', item_value = ''ftp''\<rparr>],
               mount_prefix = Some ''/'', is_unique = False\<rparr> \<and>
   keys_strictly_sorted [\<lparr>item_key = ''host'', item_value = ''h''\<rparr>,
                         \<lparr>item_key = ''type'', item_value = ''ftp''\<rparr>] \<and>
   list_all dbus_cstrings
     [DBusStruct [DBusCString ''/'',
                  DBusArray DBUS_TYPE_STRUCT
                    [DBusStruct [DBusString ''b'', DBusCString ''1''],
                     DBusStruct [DBusString ''a'', DBusCString ''2'']]]] \<and>
   g_mount_spec_from_dbus
     [DBusStruct [DBusCString ''/'',
                  DBusArray DBUS_TYPE_STRUCT
                    [DBusStruct [DBusString ''b'', DBusCString ''1''],
                     DBusStruct [DBusString ''a'', DBusCString ''2'']]]] =
     (Some \<lparr>ref_count = 1,
            items = [\<lparr>item_key = ''a'', item_value = ''2''\<rparr>,
                     \<lparr>item_key = ''b'', item_value = ''1''\<rparr>],
            mount_prefix = Some ''/'', is_unique = False\<rparr>, []) \<and>
   keys_strictly_sorted
     [\<lparr>item_key = ''a'', item_value = ''2''\<rparr>, \<lparr>item_key = ''b'', item_value = ''1''\<rparr>]"
proof -
  let ?ftp = "g_mount_spec_new (Some ''ftp'')"
  let ?data = "[\<lparr>item_key = ''b'', item_value = ''1''\<rparr>, \<lparr>item_key = ''a'', item_value = ''2''\<rparr>]"
  let ?str = "''type=ftp,host=h,__mount_prefix=/''"
  let ?spec1 = "\<lparr>ref_count = 1,
               items = [\<lparr>item_key = ''host'', item_value = ''h''\<rparr>,
                        \<lparr>item_key = ''type'', item_value = ''ftp''\<rparr>],
               mount_prefix = Some ''/'', is_unique = False\<rparr>"
  let ?elems = "[DBusStruct [DBusString ''b'', DBusCString ''1''],
                 DBusStruct [DBusString ''a'', DBusCString ''2'']]"
  let ?iter = "[DBusStruct [DBusCString ''/'', DBusArray DBUS_TYPE_STRUCT ?elems]]"
  let ?spec2 = "\<lparr>ref_count = 1,
            items = [\<lparr>item_key = ''a'', item_value = ''2''\<rparr>,
                     \<lparr>item_key = ''b'', item_value = ''1''\<rparr>],
            mount_prefix = Some ''/'', is_unique = False\<rparr>"
  have new: "?ftp =
      \<lparr>ref_count = 1, items = [\<lparr>item_key = ''type'', item_value = ''ftp''\<rparr>],
       mount_prefix = Some ''/'', is_unique = False\<rparr>"
    by (simp add: g_mount_spec_new_def g_mount_spec_set_def g_mount_spec_set_with_len_def
        add_item_def g_array_sort_def g_strdup_def)
  have h1: "spec_cstrings ?ftp" "cstring ''host''" "cstring ''h''"
    "keys_strictly_sorted (items ?ftp)"
    by (simp_all add: new spec_cstrings_def item_cstrings_def keys_strictly_sorted_def NUL_def)
  have h2: "list_all item_cstrings ?data" "distinct (map item_key ?data)"
    by (simp_all add: item_cstrings_def NUL_def)
  have h3: "cstring ?str" "g_mount_spec_new_from_string ?str = Returned ?spec1"
    by (simp_all add: NUL_def g_mount_spec_new_from_string_def g_strsplit_def g_strv_length_def
        g_mount_spec_new_from_data_def g_array_sort_def item_compare_def)
  have d3: "distinct (map pair_key
      (filter (\<lambda>p. \<not> is_prefix_pair p) (g_strsplit ?str (CHR '',''))))"
    by (simp add: g_strsplit_def is_prefix_pair_def pair_key_def)
  have h4: "list_all dbus_cstrings ?iter" "g_mount_spec_from_dbus ?iter = (Some ?spec2, [])"
    by (simp_all add: NUL_def from_dbus_array g_array_sort_def item_compare_def)
  note t1 = item_store_sorted [where spec = ?ftp and k = "''host''" and v = "''h''"
      and value_len = 1 and xs = ?data and p = None and str = ?str and ?spec1.0 = ?spec1
      and iter = ?iter and ?spec2.0 = ?spec2 and iter' = "[]"]
  note t2 = item_store_sorted [where spec = ?ftp and k = "''host''" and v = "''h''"
      and value_len = "- 2"]
  have r1: "- 1 \<le> (1::int) \<and> (1::int) < 2 ^ 31"
    and r2: "- (2 ^ 31) \<le> (- 2::int) \<and> (- 2::int) < - 1"
    by simp_all
  from t1 h1 r1 have c1: "keys_strictly_sorted (items (g_mount_spec_set ?ftp (Some ''host'') (Some ''h'')))"
    "\<exists>spec'. g_mount_spec_set_with_len ?ftp (Some ''host'') (Some ''h'') 1 = Some spec' \<and>
       keys_strictly_sorted (items spec')"
    by blast+
  from t2 h1 r2 have c1': "g_mount_spec_set_with_len ?ftp (Some ''host'') (Some ''h'') (- 2) = None"
    by blast
  from t1 h2 have c2: "keys_strictly_sorted (items (g_mount_spec_new_from_data ?data None))"
    by blast
  from t1 h3 d3 have c3: "keys_strictly_sorted (items ?spec1)"
    by blast
  from t1 h4 obtain pfx elems others where
    "?iter = DBusStruct (DBusCString pfx # DBusArray DBUS_TYPE_STRUCT elems # others) # []"
    "keys_strictly_sorted (items ?spec2) \<longleftrightarrow> distinct (map item_key (read_entries elems))"
    by blast
  then have c4: "keys_strictly_sorted (items ?spec2)"
    by auto
  from h1 h2 h3 h4 c1 c1' c2 c3 c4 show ?thesis
    by simp
qed
section \<open>The registry of unique specifications: the contract\<close>

lemma equal_at_sym:
  "well_formed_at st a \<Longrightarrow> well_formed_at st b \<Longrightarrow> equal_at st a b \<Longrightarrow> equal_at st b a"
  by (auto simp: equal_at_def well_formed_at_def g_mount_spec_equal_iff split: option.splits)

lemma equal_at_trans:
  "well_formed_at st a \<Longrightarrow> well_formed_at st b \<Longrightarrow> well_formed_at st c \<Longrightarrow>
   equal_at st a b \<Longrightarrow> equal_at st b c \<Longrightarrow> equal_at st a c"
  by (auto simp: equal_at_def well_formed_at_def g_mount_spec_equal_iff split: option.splits)

lemma equal_at_hash:
  "well_formed_at st a \<Longrightarrow> well_formed_at st b \<Longrightarrow> equal_at st a b \<Longrightarrow>
   hash_at st a = hash_at st b"
  by (auto simp: equal_at_def well_formed_at_def hash_at_def g_mount_spec_equal_iff
      g_mount_spec_hash_def split: option.splits)

lemma equal_at_refl:
  "heap st a = Some s \<Longrightarrow> well_formed_at st a \<Longrightarrow> equal_at st a a"
  by (auto simp: equal_at_def well_formed_at_def g_mount_spec_equal_iff)

lemma lookup_node_Some:
  "lookup_node h nodes key_hash k = Some node \<Longrightarrow>
   node \<in> set nodes \<and> fst node = key_hash \<and>
   (\<exists>s. h (fst (snd node)) = Some s \<and> g_mount_spec_equal s k)"
  by (induction h nodes key_hash k rule: lookup_node.induct)
    (auto split: if_splits option.splits)

lemma lookup_node_None:
  "lookup_node h nodes key_hash k = None \<Longrightarrow> (node_hash, node_key, node_value) \<in> set nodes \<Longrightarrow>
   h node_key = Some s \<Longrightarrow> node_hash = key_hash \<Longrightarrow> \<not> g_mount_spec_equal s k"
  by (induction h nodes key_hash k rule: lookup_node.induct)
    (auto split: if_splits option.splits)

lemma insert_node_miss:
  "lookup_node h nodes key_hash k = None \<Longrightarrow>
   insert_node h nodes key_hash k key' value' = nodes @ [(key_hash, key', value')]"
  by (induction h nodes key_hash k rule: lookup_node.induct)
    (auto split: if_splits option.splits)

lemma lookup_node_cong:
  assumes "\<And>node_hash node_key node_value. (node_hash, node_key, node_value) \<in> set nodes \<Longrightarrow>
             (case h node_key of Some s \<Rightarrow> g_mount_spec_equal s k | None \<Rightarrow> False) =
             (case h' node_key of Some s \<Rightarrow> g_mount_spec_equal s k' | None \<Rightarrow> False)"
  shows "lookup_node h nodes key_hash k = lookup_node h' nodes key_hash k'"
  using assms
proof (induction nodes)
  case Nil
  then show ?case by simp
next
  case (Cons node nodes)
  obtain nh nk nv where node: "node = (nh, nk, nv)"
    by (cases node)
  have "lookup_node h nodes key_hash k = lookup_node h' nodes key_hash k'"
  proof (rule Cons.IH)
    fix a b c
    assume "(a, b, c) \<in> set nodes"
    then have "(a, b, c) \<in> set (node # nodes)"
      by simp
    then show "(case h b of Some s \<Rightarrow> g_mount_spec_equal s k | None \<Rightarrow> False) =
        (case h' b of Some s \<Rightarrow> g_mount_spec_equal s k' | None \<Rightarrow> False)"
      by (rule Cons.prems)
  qed
  moreover have "(case h nk of Some s \<Rightarrow> g_mount_spec_equal s k | None \<Rightarrow> False) =
      (case h' nk of Some s \<Rightarrow> g_mount_spec_equal s k' | None \<Rightarrow> False)"
    by (rule Cons.prems [of nh nk nv]) (simp add: node)
  ultimately show ?case
    by (simp add: node)
qed

text \<open>What a state looks like from outside: the four views, and when two states agree.\<close>

lemma registry_consistent_cong:
  assumes "table_nodes st' = table_nodes st" and "\<And>a. well_formed_at st' a = well_formed_at st a"
    and "\<And>a. unique_at st' a = unique_at st a" and "\<And>a. hash_at st' a = hash_at st a"
    and "\<And>a b. equal_at st' a b = equal_at st a b"
  shows "registry_consistent st' = registry_consistent st"
proof -
  have "well_formed_at st' = well_formed_at st" "unique_at st' = unique_at st"
    "hash_at st' = hash_at st" "equal_at st' = equal_at st"
    using assms by (auto intro!: ext)
  with assms(1) show ?thesis
    by (simp add: registry_consistent_def)
qed

lemma views_ref:
  fixes n :: int
  assumes "heap st a = Some s"
  defines "st' \<equiv> st\<lparr>heap := (heap st)(a \<mapsto> s\<lparr>ref_count := n\<rparr>)\<rparr>"
  shows "table_nodes st' = table_nodes st" and "well_formed_at st' x = well_formed_at st x"
    and "unique_at st' x = unique_at st x" and "hash_at st' x = hash_at st x"
    and "equal_at st' x y = equal_at st x y"
    and "heap st' x = None \<longleftrightarrow> heap st x = None"
  using assms(1)
  by (auto simp: st'_def table_nodes_def well_formed_at_def unique_at_def hash_at_def
      equal_at_def spec_cstrings_def g_mount_spec_hash_def g_mount_spec_equal_def
      split: option.splits)

lemma views_table:
  "table_nodes (st\<lparr>unique_hash := Some (table_nodes st)\<rparr>) = table_nodes st"
  "well_formed_at (st\<lparr>unique_hash := t\<rparr>) x = well_formed_at st x"
  "unique_at (st\<lparr>unique_hash := t\<rparr>) x = unique_at st x"
  "hash_at (st\<lparr>unique_hash := t\<rparr>) x = hash_at st x"
  "equal_at (st\<lparr>unique_hash := t\<rparr>) x y = equal_at st x y"
  by (simp_all add: table_nodes_def well_formed_at_def unique_at_def hash_at_def equal_at_def
      split: option.splits)

lemma views_mark:
  fixes t :: "(32 word \<times> nat \<times> nat) list"
  assumes "heap st a = Some s"
  defines "st' \<equiv> \<lparr>heap = (heap st)(a \<mapsto> s\<lparr>is_unique := True\<rparr>), unique_hash = Some t\<rparr>"
  shows "table_nodes st' = t" and "well_formed_at st' x = well_formed_at st x"
    and "unique_at st' x \<longleftrightarrow> x = a \<or> unique_at st x" and "hash_at st' x = hash_at st x"
    and "equal_at st' x y = equal_at st x y"
    and "heap st' x = None \<longleftrightarrow> heap st x = None"
  using assms(1)
  by (auto simp: st'_def table_nodes_def well_formed_at_def unique_at_def hash_at_def
      equal_at_def spec_cstrings_def g_mount_spec_hash_def g_mount_spec_equal_def
      split: option.splits)

lemma consistentD:
  assumes "registry_consistent st"
  shows "well_formed_at st a"
    and "(node_hash, node_key, node_value) \<in> set (table_nodes st) \<Longrightarrow>
         node_value = node_key \<and> unique_at st node_key \<and> hash_at st node_key = Some node_hash"
    and "unique_at st a \<Longrightarrow> \<exists>node_hash node_value. (node_hash, a, node_value) \<in> set (table_nodes st)"
    and "unique_at st a \<Longrightarrow> unique_at st b \<Longrightarrow> equal_at st a b \<Longrightarrow> a = b"
  using assms unfolding registry_consistent_def by (blast, fastforce, fastforce, blast)

lemma lookup_found:
  assumes "registry_consistent st" and "heap st spec = Some s"
    and "g_hash_table_lookup (heap st) (table_nodes st) s = Some u"
  shows "unique_at st u \<and> equal_at st u spec"
proof -
  from assms(3) obtain nh nk where l: "lookup_node (heap st) (table_nodes st) (g_mount_spec_hash s) s =
      Some (nh, nk, u)"
    by (auto simp: g_hash_table_lookup_def)
  from lookup_node_Some [OF l] obtain su where n: "(nh, nk, u) \<in> set (table_nodes st)"
    and su: "heap st nk = Some su" "g_mount_spec_equal su s"
    by auto
  from consistentD(2) [OF assms(1) n] have "u = nk" "unique_at st nk"
    by simp_all
  with su assms(2) show ?thesis
    by (simp add: equal_at_def)
qed

lemma lookup_hit:
  assumes "registry_consistent st" and "heap st spec = Some s"
    and "unique_at st u" and "equal_at st u spec"
  shows "g_hash_table_lookup (heap st) (table_nodes st) s = Some u"
proof -
  note wf = consistentD(1) [OF assms(1)]
  from consistentD(3) [OF assms(1,3)] obtain nh nv where n: "(nh, u, nv) \<in> set (table_nodes st)"
    by blast
  from consistentD(2) [OF assms(1) n] have h: "hash_at st u = Some nh"
    by simp
  from assms(4) obtain su where su: "heap st u = Some su" "g_mount_spec_equal su s"
    by (auto simp: equal_at_def assms(2) split: option.splits)
  have "hash_at st u = hash_at st spec"
    using equal_at_hash [OF wf wf assms(4)] .
  with h assms(2) have nh: "nh = g_mount_spec_hash s"
    by (auto simp: hash_at_def)
  have "lookup_node (heap st) (table_nodes st) (g_mount_spec_hash s) s \<noteq> None"
    using lookup_node_None [of "heap st" "table_nodes st" "g_mount_spec_hash s" s nh u nv su]
      n su nh by blast
  then obtain u' where u': "g_hash_table_lookup (heap st) (table_nodes st) s = Some u'"
    by (auto simp: g_hash_table_lookup_def)
  from lookup_found [OF assms(1,2) u'] have "unique_at st u'" "equal_at st u' spec"
    by simp_all
  moreover have "equal_at st spec u"
    using equal_at_sym [OF wf wf assms(4)] .
  ultimately have "equal_at st u' u"
    using equal_at_trans [OF wf wf wf] by blast
  with \<open>unique_at st u'\<close> assms(3) have "u' = u"
    using consistentD(4) [OF assms(1)] by blast
  with u' show ?thesis by simp
qed

lemma get_unique_for_unique:
  assumes "heap st spec = Some s" and "is_unique s"
  shows "g_mount_spec_get_unique_for st spec =
     Some (spec, st\<lparr>heap := (heap st)(spec \<mapsto> s\<lparr>ref_count := ref_count s + 1\<rparr>)\<rparr>)"
  using assms by (simp add: g_mount_spec_get_unique_for_def g_mount_spec_ref_def)

lemma get_unique_for_hit:
  assumes "registry_consistent st" and "heap st spec = Some s" and "\<not> is_unique s"
    and "unique_at st u" and "equal_at st u spec" and "heap st u = Some su"
  shows "g_mount_spec_get_unique_for st spec =
     Some (u, st\<lparr>unique_hash := Some (table_nodes st),
                 heap := (heap st)(u \<mapsto> su\<lparr>ref_count := ref_count su + 1\<rparr>)\<rparr>)"
proof -
  have t: "(case unique_hash st of None \<Rightarrow> g_hash_table_new | Some t \<Rightarrow> t) = table_nodes st"
    by (simp add: table_nodes_def g_hash_table_new_def split: option.splits)
  from lookup_hit [OF assms(1,2,4,5)] assms(2,3,6) show ?thesis
    by (simp add: g_mount_spec_get_unique_for_def t g_mount_spec_ref_def)
qed

lemma get_unique_for_miss:
  assumes "registry_consistent st" and "heap st spec = Some s" and "\<not> is_unique s"
    and "\<And>a. unique_at st a \<Longrightarrow> \<not> equal_at st a spec"
  shows "g_mount_spec_get_unique_for st spec =
     Some (spec,
       \<lparr>heap = (heap st)(spec \<mapsto> s\<lparr>is_unique := True, ref_count := ref_count s + 1\<rparr>),
        unique_hash = Some (table_nodes st @ [(g_mount_spec_hash s, spec, spec)])\<rparr>)"
proof -
  let ?s' = "s\<lparr>is_unique := True\<rparr>"
  let ?heap' = "(heap st)(spec \<mapsto> ?s')"
  have t: "(case unique_hash st of None \<Rightarrow> g_hash_table_new | Some t \<Rightarrow> t) = table_nodes st"
    by (simp add: table_nodes_def g_hash_table_new_def split: option.splits)
  have miss: "g_hash_table_lookup (heap st) (table_nodes st) s = None"
  proof (cases "g_hash_table_lookup (heap st) (table_nodes st) s")
    case None
    then show ?thesis .
  next
    case (Some u)
    from lookup_found [OF assms(1,2) Some] assms(4) show ?thesis
      by blast
  qed
  then have l: "lookup_node (heap st) (table_nodes st) (g_mount_spec_hash s) s = None"
    by (simp add: g_hash_table_lookup_def)
  have h: "g_mount_spec_hash ?s' = g_mount_spec_hash s"
    by (simp add: g_mount_spec_hash_def)
  have "lookup_node ?heap' (table_nodes st) (g_mount_spec_hash s) ?s' =
      lookup_node (heap st) (table_nodes st) (g_mount_spec_hash s) s"
  proof (rule lookup_node_cong)
    fix nh nk nv
    assume "(nh, nk, nv) \<in> set (table_nodes st)"
    from consistentD(2) [OF assms(1) this] have "unique_at st nk"
      by simp
    with assms(2,3) have "nk \<noteq> spec"
      by (auto simp: unique_at_def)
    then show "(case ?heap' nk of Some x \<Rightarrow> g_mount_spec_equal x ?s' | None \<Rightarrow> False) =
        (case heap st nk of Some x \<Rightarrow> g_mount_spec_equal x s | None \<Rightarrow> False)"
      by (simp add: g_mount_spec_equal_def split: option.splits)
  qed
  with l have "g_hash_table_insert ?heap' (table_nodes st) ?s' spec spec =
      table_nodes st @ [(g_mount_spec_hash s, spec, spec)]"
    by (simp add: g_hash_table_insert_def h insert_node_miss)
  with miss assms(2,3) show ?thesis
    by (simp add: g_mount_spec_get_unique_for_def t g_mount_spec_ref_def Let_def)
qed

lemma consistent_mark:
  assumes "registry_consistent st" and "heap st spec = Some s" and "\<not> is_unique s"
    and "\<And>a. unique_at st a \<Longrightarrow> \<not> equal_at st a spec"
  shows "registry_consistent
     \<lparr>heap = (heap st)(spec \<mapsto> s\<lparr>is_unique := True\<rparr>),
      unique_hash = Some (table_nodes st @ [(g_mount_spec_hash s, spec, spec)])\<rparr>"
    (is "registry_consistent ?st'")
proof -
  note v = views_mark [OF assms(2), where t = "table_nodes st @ [(g_mount_spec_hash s, spec, spec)]"]
  note wf = consistentD(1) [OF assms(1)]
  have hs: "hash_at st spec = Some (g_mount_spec_hash s)"
    using assms(2) by (simp add: hash_at_def)
  have 1: "well_formed_at ?st' a" for a
    using wf by (simp add: v)
  have 2: "node_value = node_key \<and> unique_at ?st' node_key \<and> hash_at ?st' node_key = Some node_hash"
    if "(node_hash, node_key, node_value) \<in> set (table_nodes ?st')" for node_hash node_key node_value
    using that consistentD(2) [OF assms(1), of node_hash node_key node_value] hs
    by (auto simp: v)
  have 3: "a \<in> (\<lambda>(node_hash, node_key, node_value). node_key) ` set (table_nodes ?st')"
    if "unique_at ?st' a" for a
  proof (cases "a = spec")
    case True
    then show ?thesis by (force simp: v)
  next
    case False
    with that have "unique_at st a"
      by (simp add: v)
    from consistentD(3) [OF assms(1) this] show ?thesis
      by (force simp: v)
  qed
  have 4: "a = b" if "unique_at ?st' a" "unique_at ?st' b" "equal_at ?st' a b" for a b
  proof -
    from that(3) have e: "equal_at st a b"
      by (simp add: v)
    then have e': "equal_at st b a"
      using equal_at_sym [OF wf wf] by blast
    show ?thesis
    proof (cases "a = spec")
      case True
      with that(2) e' assms(4) [of b] show ?thesis
        by (auto simp: v)
    next
      case False
      with that(1) have a: "unique_at st a"
        by (simp add: v)
      show ?thesis
      proof (cases "b = spec")
        case True
        with a e assms(4) [of a] show ?thesis by simp
      next
        case False
        with that(2) have "unique_at st b"
          by (simp add: v)
        with a e show ?thesis
          using consistentD(4) [OF assms(1)] by blast
      qed
    qed
  qed
  show ?thesis
    unfolding registry_consistent_def using 1 2 3 4 by blast
qed

lemma get_unique_for_step:
  assumes "registry_consistent st" and "heap st spec = Some s"
  shows "\<exists>r st'. g_mount_spec_get_unique_for st spec = Some (r, st') \<and>
           registry_consistent st' \<and> unique_at st' r \<and> equal_at st' r spec \<and>
           (\<forall>x. unique_at st x \<longrightarrow> unique_at st' x) \<and>
           (\<forall>x y. equal_at st' x y = equal_at st x y) \<and>
           (\<forall>x. heap st' x = None \<longleftrightarrow> heap st x = None)"
proof -
  note wf = consistentD(1) [OF assms(1)]
  have refl: "equal_at st spec spec"
    using equal_at_refl [OF assms(2) wf] .
  show ?thesis
  proof (cases "is_unique s")
    case True
    let ?st' = "st\<lparr>heap := (heap st)(spec \<mapsto> s\<lparr>ref_count := ref_count s + 1\<rparr>)\<rparr>"
    note v = views_ref [OF assms(2), where n = "ref_count s + 1"]
    have "registry_consistent ?st'"
      using assms(1) registry_consistent_cong [of ?st' st] by (simp add: v)
    moreover have "unique_at st spec"
      using True assms(2) by (simp add: unique_at_def)
    ultimately show ?thesis
      using get_unique_for_unique [OF assms(2) True] refl assms(2) by (auto simp: v)
  next
    case False
    show ?thesis
    proof (cases "\<exists>u. unique_at st u \<and> equal_at st u spec")
      case True
      then obtain u su where u: "unique_at st u" "equal_at st u spec" "heap st u = Some su"
        by (auto simp: unique_at_def split: option.splits)
      let ?st1 = "st\<lparr>unique_hash := Some (table_nodes st)\<rparr>"
      let ?st' = "st\<lparr>unique_hash := Some (table_nodes st),
                     heap := (heap st)(u \<mapsto> su\<lparr>ref_count := ref_count su + 1\<rparr>)\<rparr>"
      have "heap ?st1 u = Some su"
        using u(3) by simp
      note v = views_ref [OF this, where n = "ref_count su + 1", simplified] views_table
      have "registry_consistent ?st'"
        using assms(1) registry_consistent_cong [of ?st' st] by (simp add: v)
      then show ?thesis
        using get_unique_for_hit [OF assms(1,2) False u] u assms(2) by (auto simp: v)
    next
      case miss: False
      let ?s' = "s\<lparr>is_unique := True\<rparr>"
      let ?t' = "table_nodes st @ [(g_mount_spec_hash s, spec, spec)]"
      let ?stm = "\<lparr>heap = (heap st)(spec \<mapsto> ?s'), unique_hash = Some ?t'\<rparr>"
      let ?st' = "\<lparr>heap = (heap st)(spec \<mapsto> s\<lparr>is_unique := True, ref_count := ref_count s + 1\<rparr>),
                  unique_hash = Some ?t'\<rparr>"
      have m: "\<not> equal_at st a spec" if "unique_at st a" for a
        using that miss by blast
      have eq: "?st' = ?stm\<lparr>heap := (heap ?stm)(spec \<mapsto> ?s'\<lparr>ref_count := ref_count ?s' + 1\<rparr>)\<rparr>"
        by simp
      have hm: "heap ?stm spec = Some ?s'"
        by simp
      note vm = views_mark [OF assms(2), where t = ?t']
      note vr = views_ref [OF hm, where n = "ref_count ?s' + 1", folded eq]
      have "registry_consistent ?stm"
        using consistent_mark [OF assms(1,2) False m] .
      then have "registry_consistent ?st'"
        using registry_consistent_cong [of ?st' ?stm] by (simp add: vr)
      then show ?thesis
        using get_unique_for_miss [OF assms(1,2) False m] refl assms(2) by (auto simp: vr vm)
    qed
  qed
qed

lemma get_unique_for_all_run:
  assumes "registry_consistent st" and "list_all (\<lambda>a. heap st a \<noteq> None) specs"
  shows "\<exists>rs st'. get_unique_for_all st specs = Some (rs, st') \<and>
           registry_consistent st' \<and> length rs = length specs \<and>
           (\<forall>i < length specs. unique_at st' (rs ! i) \<and> equal_at st' (rs ! i) (specs ! i)) \<and>
           (\<forall>x. unique_at st x \<longrightarrow> unique_at st' x) \<and>
           (\<forall>x y. equal_at st' x y = equal_at st x y) \<and>
           (\<forall>x. heap st' x = None \<longleftrightarrow> heap st x = None)"
  using assms
proof (induction specs arbitrary: st)
  case Nil
  then show ?case by simp
next
  case (Cons spec specs)
  from Cons.prems(2) obtain s where s: "heap st spec = Some s"
    by auto
  from get_unique_for_step [OF Cons.prems(1) s] obtain r st1 where
    r: "g_mount_spec_get_unique_for st spec = Some (r, st1)"
    and c1: "registry_consistent st1" and u1: "unique_at st1 r" and e1: "equal_at st1 r spec"
    and mono1: "\<And>x. unique_at st x \<Longrightarrow> unique_at st1 x"
    and eq1: "\<And>x y. equal_at st1 x y = equal_at st x y"
    and al1: "\<And>x. heap st1 x = None \<longleftrightarrow> heap st x = None"
    by blast
  have "list_all (\<lambda>a. heap st1 a \<noteq> None) specs"
    using Cons.prems(2) by (simp add: al1 list_all_iff)
  from Cons.IH [OF c1 this] obtain rs st2 where
    rs: "get_unique_for_all st1 specs = Some (rs, st2)"
    and c2: "registry_consistent st2" and len: "length rs = length specs"
    and res: "\<And>i. i < length specs \<Longrightarrow> unique_at st2 (rs ! i) \<and> equal_at st2 (rs ! i) (specs ! i)"
    and mono2: "\<And>x. unique_at st1 x \<Longrightarrow> unique_at st2 x"
    and eq2: "\<And>x y. equal_at st2 x y = equal_at st1 x y"
    and al2: "\<And>x. heap st2 x = None \<longleftrightarrow> heap st1 x = None"
    by blast
  have run: "get_unique_for_all st (spec # specs) = Some (r # rs, st2)"
    using r rs by simp
  have all: "unique_at st2 ((r # rs) ! i) \<and> equal_at st2 ((r # rs) ! i) ((spec # specs) ! i)"
    if "i < length (spec # specs)" for i
  proof (cases i)
    case 0
    with u1 e1 mono2 eq2 show ?thesis by simp
  next
    case (Suc j)
    with that res [of j] show ?thesis by simp
  qed
  from run c2 len all mono1 mono2 eq1 eq2 al1 al2 show ?case
    by (intro exI [of _ "r # rs"] exI [of _ st2]) simp
qed

text \<open>
  C7: in a consistent state, \<open>g_mount_spec_get_unique_for\<close> on a spec already marked
  unique returns that same pointer with one more reference; on a miss (no unique spec is
  equal to the argument) it marks the argument unique, inserts it into the table and
  returns it; on a hit it returns the existing unique spec, with one more reference,
  and leaves the argument unmarked. After any sequence of such calls the state is
  consistent, so no two different unique specs are equal, and two calls of the sequence
  on content-equal specs return the same pointer.
\<close>

theorem get_unique_for_contract:
  assumes "registry_consistent st" and "heap st spec = Some s"
  shows "(is_unique s \<longrightarrow>
            g_mount_spec_get_unique_for st spec =
              Some (spec, st\<lparr>heap := (heap st)(spec \<mapsto> s\<lparr>ref_count := ref_count s + 1\<rparr>)\<rparr>)) \<and>
         (\<not> is_unique s \<and> (\<forall>a. unique_at st a \<longrightarrow> \<not> equal_at st a spec) \<longrightarrow>
            g_mount_spec_get_unique_for st spec =
              Some (spec,
                \<lparr>heap = (heap st)(spec \<mapsto> s\<lparr>is_unique := True, ref_count := ref_count s + 1\<rparr>),
                 unique_hash = Some (table_nodes st @ [(g_mount_spec_hash s, spec, spec)])\<rparr>)) \<and>
         (\<not> is_unique s \<and> unique_at st u \<and> equal_at st u spec \<and> heap st u = Some su \<longrightarrow>
            g_mount_spec_get_unique_for st spec =
              Some (u, st\<lparr>unique_hash := Some (table_nodes st),
                          heap := (heap st)(u \<mapsto> su\<lparr>ref_count := ref_count su + 1\<rparr>)\<rparr>)) \<and>
         (list_all (\<lambda>a. heap st a \<noteq> None) specs \<longrightarrow>
            (\<exists>rs st'. get_unique_for_all st specs = Some (rs, st') \<and>
               registry_consistent st' \<and>
               (\<forall>a b. unique_at st' a \<and> unique_at st' b \<and> equal_at st' a b \<longrightarrow> a = b) \<and>
               (\<forall>i j. i < length specs \<and> j < length specs \<and> equal_at st (specs ! i) (specs ! j) \<longrightarrow>
                  rs ! i = rs ! j)))"
proof (intro conjI impI)
  assume "is_unique s"
  with assms(2) show "g_mount_spec_get_unique_for st spec =
      Some (spec, st\<lparr>heap := (heap st)(spec \<mapsto> s\<lparr>ref_count := ref_count s + 1\<rparr>)\<rparr>)"
    by (rule get_unique_for_unique)
next
  assume "\<not> is_unique s \<and> (\<forall>a. unique_at st a \<longrightarrow> \<not> equal_at st a spec)"
  then show "g_mount_spec_get_unique_for st spec =
      Some (spec,
        \<lparr>heap = (heap st)(spec \<mapsto> s\<lparr>is_unique := True, ref_count := ref_count s + 1\<rparr>),
         unique_hash = Some (table_nodes st @ [(g_mount_spec_hash s, spec, spec)])\<rparr>)"
    using get_unique_for_miss [OF assms] by blast
next
  assume "\<not> is_unique s \<and> unique_at st u \<and> equal_at st u spec \<and> heap st u = Some su"
  then show "g_mount_spec_get_unique_for st spec =
      Some (u, st\<lparr>unique_hash := Some (table_nodes st),
                  heap := (heap st)(u \<mapsto> su\<lparr>ref_count := ref_count su + 1\<rparr>)\<rparr>)"
    using get_unique_for_hit [OF assms] by blast
next
  assume "list_all (\<lambda>a. heap st a \<noteq> None) specs"
  from get_unique_for_all_run [OF assms(1) this] obtain rs st' where
    run: "get_unique_for_all st specs = Some (rs, st')"
    and c: "registry_consistent st'"
    and res: "\<And>i. i < length specs \<Longrightarrow> unique_at st' (rs ! i) \<and> equal_at st' (rs ! i) (specs ! i)"
    and eq: "\<And>x y. equal_at st' x y = equal_at st x y"
    by blast
  note wf = consistentD(1) [OF c]
  have same: "rs ! i = rs ! j"
    if "i < length specs" "j < length specs" "equal_at st (specs ! i) (specs ! j)" for i j
  proof -
    from that(3) have "equal_at st' (specs ! i) (specs ! j)"
      by (simp add: eq)
    moreover have "equal_at st' (rs ! i) (specs ! i)" "equal_at st' (specs ! j) (rs ! j)"
      using res [OF that(1)] res [OF that(2)] equal_at_sym [OF wf wf] by blast+
    ultimately have "equal_at st' (rs ! i) (rs ! j)"
      using equal_at_trans [OF wf wf wf] by blast
    with res [OF that(1)] res [OF that(2)] show ?thesis
      using consistentD(4) [OF c] by blast
  qed
  from run c same consistentD(4) [OF c]
  show "\<exists>rs st'. get_unique_for_all st specs = Some (rs, st') \<and>
      registry_consistent st' \<and>
      (\<forall>a b. unique_at st' a \<and> unique_at st' b \<and> equal_at st' a b \<longrightarrow> a = b) \<and>
      (\<forall>i j. i < length specs \<and> j < length specs \<and> equal_at st (specs ! i) (specs ! j) \<longrightarrow>
         rs ! i = rs ! j)"
    by blast
qed

theorem get_unique_for_contract_witness:
  "registry_consistent three_specs \<and>
   heap three_specs 1 = Some (g_mount_spec_new (Some ''ftp'')) \<and>
   \<not> is_unique (g_mount_spec_new (Some ''ftp'')) \<and>
   list_all (\<lambda>a. heap three_specs a \<noteq> None) [1, 2, 3, 1, 2] \<and>
   equal_at three_specs 1 2 \<and>
   g_mount_spec_get_unique_for three_specs 1 =
     Some (1,
       \<lparr>heap = (heap three_specs)
                 (1 \<mapsto> (g_mount_spec_new (Some ''ftp''))\<lparr>is_unique := True, ref_count := 2\<rparr>),
        unique_hash = Some [(g_mount_spec_hash (g_mount_spec_new (Some ''ftp'')), 1, 1)]\<rparr>) \<and>
   (\<exists>rs st'. get_unique_for_all three_specs [1, 2, 3, 1, 2] = Some (rs, st') \<and>
      registry_consistent st' \<and> rs ! 0 = rs ! 1 \<and> rs ! 1 = rs ! 3)"
proof -
  let ?ftp = "g_mount_spec_new (Some ''ftp'')"
  have ftp: "?ftp =
      \<lparr>ref_count = 1, items = [\<lparr>item_key = ''type'', item_value = ''ftp''\<rparr>],
       mount_prefix = Some ''/'', is_unique = False\<rparr>"
    by (simp add: g_mount_spec_new_def g_mount_spec_set_def g_mount_spec_set_with_len_def
        add_item_def g_array_sort_def g_strdup_def)
  have smb: "g_mount_spec_new (Some ''smb'') =
      \<lparr>ref_count = 1, items = [\<lparr>item_key = ''type'', item_value = ''smb''\<rparr>],
       mount_prefix = Some ''/'', is_unique = False\<rparr>"
    by (simp add: g_mount_spec_new_def g_mount_spec_set_def g_mount_spec_set_with_len_def
        add_item_def g_array_sort_def g_strdup_def)
  have none: "\<not> unique_at three_specs a" for a
    by (simp add: unique_at_def three_specs_def ftp smb)
  have wf: "well_formed_at three_specs a" for a
    by (simp add: well_formed_at_def three_specs_def ftp smb spec_cstrings_def item_cstrings_def
        NUL_def)
  have t: "table_nodes three_specs = []"
    by (simp add: table_nodes_def three_specs_def)
  have c: "registry_consistent three_specs"
    unfolding registry_consistent_def using none wf t by auto
  have h: "heap three_specs 1 = Some ?ftp"
    by (simp add: three_specs_def)
  have nu: "\<not> is_unique ?ftp"
    by (simp add: ftp)
  have al: "list_all (\<lambda>a. heap three_specs a \<noteq> None) [1, 2, 3, 1, 2]"
    by (simp add: three_specs_def)
  have e: "equal_at three_specs 1 2"
    by (simp add: equal_at_def three_specs_def ftp g_mount_spec_equal_def items_equal_def)
  have r: "ref_count ?ftp + 1 = 2"
    by (simp add: ftp)
  note inst = get_unique_for_contract [OF c h, of 0 ?ftp "[1, 2, 3, 1, 2]"]
  from inst nu none have first: "g_mount_spec_get_unique_for three_specs 1 =
     Some (1,
       \<lparr>heap = (heap three_specs)(1 \<mapsto> ?ftp\<lparr>is_unique := True, ref_count := 2\<rparr>),
        unique_hash = Some [(g_mount_spec_hash ?ftp, 1, 1)]\<rparr>)"
    by (simp add: t r)
  from inst al obtain rs st' where run: "get_unique_for_all three_specs [1, 2, 3, 1, 2] = Some (rs, st')"
    and c': "registry_consistent st'"
    and same: "\<And>i j. i < 5 \<Longrightarrow> j < 5 \<Longrightarrow>
        equal_at three_specs ([1, 2, 3, 1, 2] ! i) ([1, 2, 3, 1, 2] ! j) \<Longrightarrow> rs ! i = rs ! j"
    by auto
  have "rs ! 0 = rs ! 1"
    using same [of 0 1] e by simp
  moreover have "rs ! 1 = rs ! 3"
    using same [of 1 3] e equal_at_sym [OF wf wf e] by simp
  ultimately show ?thesis
    using c h nu al e first run c' by blast
qed

section \<open>Canonical paths: the buffer as what is done and what is left\<close>

text \<open>
  At every pass of the loop the buffer is \<open>pre @ rest\<close> with \<open>p = length pre\<close>: \<open>pre\<close> is
  finished, \<open>rest\<close> is still to be read.
\<close>

lemma char_at_append_right [simp]: "char_at (pre @ rest) (length pre + i) = char_at rest i"
  by (simp add: char_at_def nth_append)

lemma char_at_append_right0 [simp]: "char_at (pre @ rest) (length pre) = char_at rest 0"
  using char_at_append_right [of pre rest 0] by simp

lemma char_at_append_left: "i < length pre \<Longrightarrow> char_at (pre @ rest) i = pre ! i"
  by (simp add: char_at_def nth_append)

lemma char_at_Cons_0 [simp]: "char_at (c # s) 0 = c"
  by (simp add: char_at_def)

lemma char_at_Cons_Suc [simp]: "char_at (c # s) (Suc i) = char_at s i"
  by (simp add: char_at_def)

lemma char_at_Nil [simp]: "char_at [] i = NUL"
  by (simp add: char_at_def)

lemma char_at_length [simp]: "char_at s (length s) = NUL"
  by (simp add: char_at_def)

lemma memmove_rest_append [simp]:
  "memmove_rest (pre @ rest) (length pre) (length pre + n) = pre @ drop n rest"
  by (simp add: memmove_rest_def)

lemma skip_to_separator_append:
  "cstring rest \<Longrightarrow>
   skip_to_separator (pre @ rest) (length pre) =
     length pre + length (takeWhile (\<lambda>c. c \<noteq> CHR ''/'') rest)"
proof (induction rest arbitrary: pre)
  case Nil
  show ?case
    by (subst skip_to_separator.simps) simp
next
  case (Cons c rest)
  show ?case
  proof (cases "c = CHR ''/''")
    case True
    then show ?thesis
      by (subst skip_to_separator.simps) simp
  next
    case False
    have "skip_to_separator (pre @ c # rest) (length pre) =
        skip_to_separator ((pre @ [c]) @ rest) (length (pre @ [c]))"
      using False Cons.prems by (subst skip_to_separator.simps) simp
    also have "\<dots> = length (pre @ [c]) + length (takeWhile (\<lambda>c. c \<noteq> CHR ''/'') rest)"
      using Cons.prems by (intro Cons.IH) simp
    finally show ?thesis
      using False by simp
  qed
qed

lemma skip_separators_append:
  "skip_separators (pre @ rest) (length pre) =
     length pre + length (takeWhile (\<lambda>c. c = CHR ''/'') rest)"
proof (induction rest arbitrary: pre)
  case Nil
  show ?case
    by (subst skip_separators.simps) simp
next
  case (Cons c rest)
  show ?case
  proof (cases "c = CHR ''/''")
    case False
    then show ?thesis
      by (subst skip_separators.simps) simp
  next
    case True
    have "skip_separators (pre @ c # rest) (length pre) =
        skip_separators ((pre @ [c]) @ rest) (length (pre @ [c]))"
      using True by (subst skip_separators.simps) (simp add: NUL_def)
    also have "\<dots> = length (pre @ [c]) + length (takeWhile (\<lambda>c. c = CHR ''/'') rest)"
      by (rule Cons.IH)
    finally show ?thesis
      using True by simp
  qed
qed

lemma remove_separators_append:
  "remove_separators (pre @ rest) (length pre) =
     (pre @ dropWhile (\<lambda>c. c = CHR ''/'') rest, length pre)"
proof -
  let ?n = "length (takeWhile (\<lambda>c. c = CHR ''/'') rest)"
  have d: "drop ?n rest = dropWhile (\<lambda>c. c = CHR ''/'') rest"
    by (simp add: dropWhile_eq_drop)
  show ?thesis
  proof (cases "?n = 0")
    case True
    with d have "dropWhile (\<lambda>c. c = CHR ''/'') rest = rest"
      by simp
    with True show ?thesis
      by (simp add: remove_separators_def skip_separators_append)
  next
    case False
    with d show ?thesis
      by (simp add: remove_separators_def skip_separators_append)
  qed
qed

text \<open>Scanning back over the last segment of \<open>pre\<close> stops at the separator before it.\<close>

lemma scan_back_segment:
  assumes "CHR ''/'' \<notin> set seg" and "x \<noteq> []" and "last x = CHR ''/''" and "j < length seg"
  shows "scan_back (x @ seg @ r) (length x + j) = (if length x = 1 then 1 else length x - 1)"
  using assms(4)
proof (induction j)
  case 0
  show ?case
  proof (cases "length x = 1")
    case True
    then show ?thesis
      by (subst scan_back.simps) (simp add: start_def)
  next
    case False
    with assms(2) have x: "length x > 1"
      by (cases x) auto
    have c: "char_at (x @ seg @ r) (length x) \<noteq> CHR ''/''"
      using assms(1) 0 by (cases seg) auto
    have "char_at (x @ seg @ r) (length x - 1) = CHR ''/''"
      using assms(2,3) by (simp add: char_at_append_left last_conv_nth)
    then have "scan_back (x @ seg @ r) (length x - 1) = length x - 1"
      by (subst scan_back.simps) simp
    with x c False show ?thesis
      by (subst scan_back.simps) (simp add: start_def)
  qed
next
  case (Suc j)
  have "length x \<ge> 1"
    using assms(2) by (cases x) auto
  moreover have "seg ! Suc j \<in> set seg"
    using Suc.prems by simp
  then have "seg ! Suc j \<noteq> CHR ''/''"
    using assms(1) by metis
  then have "char_at (x @ seg @ r) (length x + Suc j) \<noteq> CHR ''/''"
    using Suc.prems by (simp add: char_at_def nth_append del: char_at_append_right)
  ultimately have "scan_back (x @ seg @ r) (length x + Suc j) = scan_back (x @ seg @ r) (length x + j)"
    using assms(2) by (subst scan_back.simps) (simp add: start_def)
  with Suc show ?case
    by simp
qed

section \<open>Canonical paths: one pass of the loop\<close>

lemma char_at_append_right1 [simp]:
  "char_at (pre @ rest) (Suc (length pre)) = char_at rest 1"
  using char_at_append_right [of pre rest 1] by simp

lemma char_at_append_right2 [simp]:
  "char_at (pre @ rest) (Suc (Suc (length pre))) = char_at rest 2"
  using char_at_append_right [of pre rest 2] by simp

lemma char_at_0: "char_at s 0 = (if s = [] then NUL else hd s)"
  by (cases s) simp_all

lemma NUL_not_dot [simp]: "NUL \<noteq> CHR ''.''" "CHR ''.'' \<noteq> NUL"
  by (simp_all add: NUL_def)

lemma NUL_not_slash [simp]: "NUL \<noteq> CHR ''/''" "CHR ''/'' \<noteq> NUL"
  by (simp_all add: NUL_def)

lemma branch_dot:
  assumes "after = [] \<or> hd after = CHR ''/''"
  shows "canonicalize_branch (pre @ CHR ''.'' # after) (length pre) = (pre @ after, length pre)"
proof -
  have "char_at after 0 = NUL \<or> char_at after 0 = CHR ''/''"
    using assms by (auto simp: char_at_0)
  moreover have "memmove_rest (pre @ CHR ''.'' # after) (length pre) (length pre + 1) = pre @ after"
    by (subst memmove_rest_append) simp
  ultimately show ?thesis
    by (auto simp: canonicalize_branch_def)
qed

lemma step_dot:
  assumes "after = [] \<or> hd after = CHR ''/''"
  shows "canonicalize_step (pre @ CHR ''.'' # after) (length pre) =
    (pre @ dropWhile (\<lambda>c. c = CHR ''/'') after, length pre)"
  by (simp add: canonicalize_step_def branch_dot [OF assms] remove_separators_append)

text \<open>\<open>..\<close> at the root, with one or two separators before it, removes only itself.\<close>

lemma branch_dotdot_root:
  assumes "after = [] \<or> hd after = CHR ''/''"
  shows "canonicalize_branch (''/'' @ ''..'' @ after) 1 = (''/'' @ after, 1)"
    and "canonicalize_branch (''//'' @ ''..'' @ after) 2 = (''//'' @ after, 2)"
proof -
  have a: "char_at after 0 = NUL \<or> char_at after 0 = CHR ''/''"
    using assms by (auto simp: char_at_0)
  have s: "scan_back canon (Suc 0) = Suc 0" for canon
    by (subst scan_back.simps) (simp add: start_def)
  show "canonicalize_branch (''/'' @ ''..'' @ after) 1 = (''/'' @ after, 1)"
    using a by (auto simp: canonicalize_branch_def Let_def start_def s memmove_rest_def)
  have two: "(2::nat) = Suc (Suc 0)"
    by simp
  show "canonicalize_branch (''//'' @ ''..'' @ after) 2 = (''//'' @ after, 2)"
    using a by (auto simp: canonicalize_branch_def Let_def start_def s memmove_rest_def two)
qed

text \<open>\<open>..\<close> after a segment removes itself and that segment.\<close>

lemma branch_dotdot_segment:
  assumes "after = [] \<or> hd after = CHR ''/''"
    and "x \<noteq> []" and "last x = CHR ''/''" and "plain_segment seg"
  shows "canonicalize_branch ((x @ seg @ ''/'') @ ''..'' @ after) (length (x @ seg @ ''/'')) =
    (x @ after, length x)"
proof -
  let ?pre = "x @ seg @ ''/''"
  let ?canon = "?pre @ ''..'' @ after"
  let ?p = "length ?pre"
  have a: "char_at after 0 = NUL \<or> char_at after 0 = CHR ''/''"
    using assms(1) by (auto simp: char_at_0)
  have seg: "seg \<noteq> []" "CHR ''/'' \<notin> set seg"
    using assms(4) by (simp_all add: plain_segment_def)
  have x: "length x \<ge> 1"
    using assms(2) by (cases x) auto
  have c0: "char_at ?canon ?p = CHR ''.''"
    by (subst char_at_append_right0) simp
  have c1: "char_at ?canon (?p + 1) = CHR ''.''"
    by (subst char_at_append_right) simp
  have c2: "char_at ?canon (?p + 2) = char_at after 0"
    by (subst char_at_append_right) (simp add: numeral_2_eq_2)
  define p2 where "p2 = (if int ?p - 2 < int start then start else nat (int ?p - 2))"
  have p2: "p2 = length x + (length seg - 1)"
    using x seg(1) by (cases seg) (auto simp: p2_def start_def)
  have canon: "?canon = x @ seg @ (''/'' @ ''..'' @ after)"
    by simp
  have sb: "scan_back ?canon p2 = (if length x = 1 then 1 else length x - 1)"
    unfolding p2 canon using seg assms(2,3)
    by (intro scan_back_segment) (simp_all add: Suc_leI)
  define p3 where "p3 = scan_back ?canon p2"
  define p4 where "p4 = (if char_at ?canon p3 = CHR ''/'' then p3 + 1 else p3)"
  have p4: "p4 = length x"
  proof (cases "length x = 1")
    case True
    then have "char_at ?canon 1 = hd seg"
      using seg(1) char_at_append_right0 [of x "seg @ ''/'' @ ''..'' @ after"]
      by (cases seg) simp_all
    moreover have "hd seg \<noteq> CHR ''/''"
      using seg by (cases seg) auto
    ultimately show ?thesis
      using True sb by (simp add: p4_def p3_def)
  next
    case False
    then have "length x - 1 < length x"
      using x by simp
    then have "char_at ?canon (length x - 1) = x ! (length x - 1)"
      using char_at_append_left [of "length x - 1" x "seg @ ''/'' @ ''..'' @ after"] by simp
    also have "\<dots> = CHR ''/''"
      using assms(2,3) by (simp add: last_conv_nth)
    finally show ?thesis
      using False sb x by (simp add: p4_def p3_def)
  qed
  have "canonicalize_branch ?canon ?p = (memmove_rest ?canon p4 (?p + 2), p4)"
    unfolding canonicalize_branch_def p4_def p3_def p2_def using c0 c1 c2 a
    by (simp only: Let_def NUL_not_dot NUL_not_slash) auto
  moreover have "memmove_rest ?canon (length x) (?p + 2) = x @ after"
    by (simp add: memmove_rest_def)
  ultimately show ?thesis
    using p4 by simp
qed

lemma done_part_Nil: "done_part lead [] = (if lead then ''//'' else ''/'')"
  by (simp add: done_part_def)

lemma done_part_snoc: "done_part lead (kept @ [seg]) = done_part lead kept @ seg @ ''/''"
  by (simp add: done_part_def)

lemma done_part_not_Nil [simp]: "done_part lead kept \<noteq> []"
  by (simp add: done_part_def)

lemma last_done_part [simp]: "last (done_part lead kept) = CHR ''/''"
  by (induction kept rule: rev_induct) (simp_all add: done_part_Nil done_part_snoc)

lemma step_dotdot:
  assumes "after = [] \<or> hd after = CHR ''/''" and "list_all plain_segment kept"
  shows "canonicalize_step (done_part lead kept @ ''..'' @ after) (length (done_part lead kept)) =
    (done_part lead (butlast kept) @ dropWhile (\<lambda>c. c = CHR ''/'') after,
     length (done_part lead (butlast kept)))"
proof (cases kept rule: rev_cases)
  case Nil
  show ?thesis
  proof (cases lead)
    case True
    have "canonicalize_branch (''//'' @ ''..'' @ after) (length ''//'') =
        (''//'' @ after, length ''//'')"
      using branch_dotdot_root(2) [OF assms(1)] by (simp add: numeral_2_eq_2)
    then show ?thesis
      unfolding canonicalize_step_def Nil
      by (simp only: done_part_Nil True if_True prod.case remove_separators_append butlast.simps)
  next
    case False
    have "canonicalize_branch (''/'' @ ''..'' @ after) (length ''/'') =
        (''/'' @ after, length ''/'')"
      using branch_dotdot_root(1) [OF assms(1)] by simp
    then show ?thesis
      unfolding canonicalize_step_def Nil
      by (simp only: done_part_Nil False if_False prod.case remove_separators_append butlast.simps)
  qed
next
  case (snoc ks k)
  then have k: "plain_segment k"
    using assms(2) by simp
  have "canonicalize_branch ((done_part lead ks @ k @ ''/'') @ ''..'' @ after)
      (length (done_part lead ks @ k @ ''/'')) = (done_part lead ks @ after, length (done_part lead ks))"
    using assms(1) _ _ k by (rule branch_dotdot_segment) simp_all
  then show ?thesis
    unfolding canonicalize_step_def snoc done_part_snoc butlast_snoc
    by (simp only: prod.case remove_separators_append)
qed

text \<open>Any other segment is kept, with one separator after it when there is one.\<close>

lemma other_segment_not_dot:
  assumes "tok \<noteq> ''.''" and "CHR ''/'' \<notin> set tok" and "cstring tok"
    and "after = [] \<or> hd after = CHR ''/''"
  shows "\<not> (char_at (tok @ after) 0 = CHR ''.'' \<and>
      (char_at (tok @ after) 1 = NUL \<or> char_at (tok @ after) 1 = CHR ''/''))"
proof (cases tok)
  case Nil
  with assms(4) show ?thesis
    by (auto simp: char_at_0)
next
  case (Cons c t)
  show ?thesis
  proof (cases t)
    case Nil
    with Cons assms(1) show ?thesis
      by simp
  next
    case (Cons d u)
    with \<open>tok = c # t\<close> assms(2,3) show ?thesis
      by (auto simp: cstring_def)
  qed
qed

lemma other_segment_not_dotdot:
  assumes "tok \<noteq> ''..''" and "CHR ''/'' \<notin> set tok" and "cstring tok"
    and "after = [] \<or> hd after = CHR ''/''"
  shows "\<not> (char_at (tok @ after) 0 = CHR ''.'' \<and> char_at (tok @ after) 1 = CHR ''.'' \<and>
      (char_at (tok @ after) 2 = NUL \<or> char_at (tok @ after) 2 = CHR ''/''))"
proof (cases tok)
  case Nil
  with assms(4) show ?thesis
    by (auto simp: char_at_0)
next
  case c: (Cons c t)
  show ?thesis
  proof (cases t)
    case Nil
    with c assms(4) show ?thesis
      by (auto simp: char_at_0)
  next
    case d: (Cons d u)
    show ?thesis
    proof (cases u)
      case Nil
      with c d assms(1) show ?thesis
        by (auto simp: numeral_2_eq_2)
    next
      case (Cons e v)
      with c d assms(2,3) show ?thesis
        by (auto simp: cstring_def numeral_2_eq_2)
    qed
  qed
qed

lemma takeWhile_segment:
  assumes "CHR ''/'' \<notin> set tok" and "after = [] \<or> hd after = CHR ''/''"
  shows "takeWhile (\<lambda>c. c \<noteq> CHR ''/'') (tok @ after) = tok"
proof -
  have "takeWhile (\<lambda>c. c \<noteq> CHR ''/'') after = []"
    using assms(2) by (cases after) auto
  moreover have "\<forall>c\<in>set tok. c \<noteq> CHR ''/''"
    using assms(1) by auto
  ultimately show ?thesis
    by (simp add: takeWhile_append2)
qed

lemma branch_segment:
  assumes "tok \<noteq> ''.''" and "tok \<noteq> ''..''" and "CHR ''/'' \<notin> set tok"
    and "cstring (tok @ after)" and "after = [] \<or> hd after = CHR ''/''"
  shows "canonicalize_branch (pre @ tok @ after) (length pre) =
    (pre @ tok @ after, length pre + length tok + (if after = [] then 0 else 1))"
proof -
  have tok: "cstring tok"
    using assms(4) by simp
  have dot: "\<not> (char_at (pre @ tok @ after) (length pre) = CHR ''.'' \<and>
      (char_at (pre @ tok @ after) (length pre + 1) = NUL \<or>
       char_at (pre @ tok @ after) (length pre + 1) = CHR ''/''))"
    using other_segment_not_dot [OF assms(1,3) tok assms(5)]
    by (simp only: char_at_append_right char_at_append_right0 not_False_eq_True)
  have dotdot: "\<not> (char_at (pre @ tok @ after) (length pre) = CHR ''.'' \<and>
      char_at (pre @ tok @ after) (length pre + 1) = CHR ''.'' \<and>
      (char_at (pre @ tok @ after) (length pre + 2) = NUL \<or>
       char_at (pre @ tok @ after) (length pre + 2) = CHR ''/''))"
    using other_segment_not_dotdot [OF assms(2,3) tok assms(5)]
    by (simp only: char_at_append_right char_at_append_right0 not_False_eq_True)
  define p2 where "p2 = skip_to_separator (pre @ tok @ after) (length pre)"
  have p2: "p2 = length pre + length tok"
    unfolding p2_def
    by (simp only: skip_to_separator_append [OF assms(4)] takeWhile_segment [OF assms(3,5)])
  have "char_at (pre @ tok @ after) p2 = char_at after 0"
    unfolding p2 using char_at_append_right0 [of "pre @ tok" after] by simp
  then have at_end: "char_at (pre @ tok @ after) p2 \<noteq> NUL \<longleftrightarrow> after \<noteq> []"
    using assms(5) by (auto simp: char_at_0)
  have "canonicalize_branch (pre @ tok @ after) (length pre) =
      (pre @ tok @ after, if char_at (pre @ tok @ after) p2 \<noteq> NUL then p2 + 1 else p2)"
    unfolding canonicalize_branch_def p2_def
    by (simp only: dot dotdot if_False Let_def)
  then show ?thesis
    using at_end p2 by auto
qed

lemma step_segment_last:
  assumes "tok \<noteq> ''.''" and "tok \<noteq> ''..''" and "CHR ''/'' \<notin> set tok" and "cstring tok"
  shows "canonicalize_step (pre @ tok) (length pre) = (pre @ tok, length (pre @ tok))"
proof -
  have "canonicalize_branch (pre @ tok @ []) (length pre) =
      (pre @ tok @ [], length pre + length tok + (if [] = ([]::string) then 0 else 1))"
    using assms by (intro branch_segment) simp_all
  then have "canonicalize_branch (pre @ tok) (length pre) = ((pre @ tok) @ [], length (pre @ tok))"
    by simp
  then show ?thesis
    unfolding canonicalize_step_def
    by (simp only: prod.case remove_separators_append) simp
qed

lemma step_segment:
  assumes "tok \<noteq> ''.''" and "tok \<noteq> ''..''" and "CHR ''/'' \<notin> set tok"
    and "cstring (tok @ CHR ''/'' # after)"
  shows "canonicalize_step (pre @ tok @ CHR ''/'' # after) (length pre) =
    ((pre @ tok @ ''/'') @ dropWhile (\<lambda>c. c = CHR ''/'') after, length (pre @ tok @ ''/''))"
proof -
  have "canonicalize_branch (pre @ tok @ CHR ''/'' # after) (length pre) =
      (pre @ tok @ CHR ''/'' # after,
       length pre + length tok + (if CHR ''/'' # after = [] then 0 else 1))"
    using assms by (intro branch_segment) simp_all
  then have "canonicalize_branch (pre @ tok @ CHR ''/'' # after) (length pre) =
      ((pre @ tok @ ''/'') @ after, length (pre @ tok @ ''/''))"
    by simp
  then show ?thesis
    unfolding canonicalize_step_def
    by (simp only: prod.case remove_separators_append)
qed

section \<open>Canonical paths: the loop as a fold over the segments\<close>

lemma path_segments_Nil [simp]: "path_segments [] = []"
  by (simp add: path_segments_def)

lemma path_segments_separator [simp]: "path_segments (CHR ''/'' # s) = path_segments s"
  by (simp add: path_segments_def)

lemma path_segments_dropWhile [simp]:
  "path_segments (dropWhile (\<lambda>c. c = CHR ''/'') s) = path_segments s"
  by (induction s) simp_all

lemma path_segments_split:
  assumes "tok \<noteq> []" and "CHR ''/'' \<notin> set tok" and "after = [] \<or> hd after = CHR ''/''"
  shows "path_segments (tok @ after) = tok # path_segments (dropWhile (\<lambda>c. c = CHR ''/'') after)"
proof (cases after)
  case Nil
  with assms(1,2) show ?thesis
    by (simp add: path_segments_def split_tokens_no_delimiter)
next
  case (Cons c a)
  with assms(3) have "c = CHR ''/''"
    by simp
  with Cons assms(1,2) have "path_segments (tok @ after) = tok # path_segments a"
    by (simp add: path_segments_def split_tokens_append)
  then show ?thesis
    by (simp only: path_segments_dropWhile Cons \<open>c = CHR ''/''\<close> path_segments_separator)
qed

lemma concat_join_segments:
  "kept \<noteq> [] \<Longrightarrow> concat (map (\<lambda>seg. seg @ ''/'') kept) = join_segments kept @ ''/''"
  by (induction kept rule: join_segments.induct) simp_all

lemma join_segments_snoc:
  "join_segments (kept @ [seg]) = concat (map (\<lambda>seg. seg @ ''/'') kept) @ seg"
  by (induction kept rule: join_segments.induct) simp_all

lemma rendered_snoc: "rendered lead (kept @ [seg]) = done_part lead kept @ seg"
  by (simp add: rendered_def done_part_def join_segments_snoc)

lemma strip_trailing_done_part:
  "strip_trailing (done_part lead kept, length (done_part lead kept)) = rendered lead kept"
proof -
  let ?pre = "done_part lead kept"
  have "last ?pre = ?pre ! (length ?pre - 1)"
    by (rule last_conv_nth) simp
  then have "?pre ! (length ?pre - 1) = CHR ''/''"
    by simp
  moreover have "length ?pre - 1 < length ?pre"
    using done_part_not_Nil [of lead kept] by (cases ?pre) simp_all
  ultimately have last_char: "char_at ?pre (length ?pre - 1) = CHR ''/''"
    by (simp add: char_at_def)
  have take: "take (length ?pre - 1) ?pre = butlast ?pre"
    by (simp add: butlast_conv_take)
  show ?thesis
  proof (cases "kept = []")
    case True
    then show ?thesis
      by (simp add: strip_trailing_def done_part_def rendered_def start_def)
  next
    case False
    then have "?pre = (CHR ''/'' # (if lead then ''/'' else []) @ join_segments kept) @ ''/''"
      by (simp add: done_part_def concat_join_segments)
    then have "butlast ?pre = CHR ''/'' # (if lead then ''/'' else []) @ join_segments kept"
      by (simp only: butlast_snoc)
    moreover have "length ?pre > start"
      using False by (cases kept) (simp_all add: done_part_def start_def)
    ultimately show ?thesis
      using last_char take False by (simp add: strip_trailing_def rendered_def)
  qed
qed

lemma strip_trailing_segment:
  assumes "tok \<noteq> []" and "CHR ''/'' \<notin> set tok"
  shows "strip_trailing (pre @ tok, length (pre @ tok)) = pre @ tok"
proof -
  have "last (pre @ tok) = (pre @ tok) ! (length (pre @ tok) - 1)"
    using assms(1) by (intro last_conv_nth) simp
  moreover have "length (pre @ tok) - 1 < length (pre @ tok)"
    using assms(1) by (cases tok) simp_all
  ultimately have "char_at (pre @ tok) (length (pre @ tok) - 1) = last tok"
    using assms(1) by (simp add: char_at_def)
  moreover have "last tok \<noteq> CHR ''/''"
    using assms last_in_set [of tok] by metis
  ultimately show ?thesis
    by (simp add: strip_trailing_def)
qed

lemma canonicalize_loop_exit: "canonicalize_loop canon (length canon) = (canon, length canon)"
  by (subst canonicalize_loop.simps) simp

lemma canonicalize_loop_step:
  assumes "rest \<noteq> []" and "cstring rest"
    and "canonicalize_step (pre @ rest) (length pre) = (canon', p')"
  shows "canonicalize_loop (pre @ rest) (length pre) = canonicalize_loop canon' p'"
proof -
  have "char_at (pre @ rest) (length pre) \<noteq> NUL"
    using assms(1,2) by (cases rest) (auto simp: cstring_def)
  then show ?thesis
    using assms(3) by (subst canonicalize_loop.simps) simp
qed

lemma segment_split:
  assumes "rest \<noteq> []" and "hd rest \<noteq> CHR ''/''"
  obtains tok after where "rest = tok @ after" and "tok \<noteq> []" and "CHR ''/'' \<notin> set tok"
    and "after = [] \<or> hd after = CHR ''/''" and "length after < length rest"
proof
  let ?tok = "takeWhile (\<lambda>c. c \<noteq> CHR ''/'') rest"
  let ?after = "dropWhile (\<lambda>c. c \<noteq> CHR ''/'') rest"
  show "rest = ?tok @ ?after"
    by simp
  show tok: "?tok \<noteq> []"
    using assms by (cases rest) auto
  show "CHR ''/'' \<notin> set ?tok"
    by (auto dest: set_takeWhileD)
  show "?after = [] \<or> hd ?after = CHR ''/''"
    using hd_dropWhile [of "\<lambda>c. c \<noteq> CHR ''/''" rest] by auto
  have "length rest = length ?tok + length ?after"
    by (metis length_append takeWhile_dropWhile_id)
  with tok show "length ?after < length rest"
    by (cases ?tok) simp_all
qed

lemma dropWhile_separators:
  "dropWhile (\<lambda>c. c = CHR ''/'') s = [] \<or> hd (dropWhile (\<lambda>c. c = CHR ''/'') s) \<noteq> CHR ''/''"
  using hd_dropWhile [of "\<lambda>c. c = CHR ''/''" s] by auto

lemma list_all_butlast: "list_all P xs \<Longrightarrow> list_all P (butlast xs)"
  by (induction xs) simp_all

lemma canonicalize_loop_segments:
  assumes "cstring rest" and "rest = [] \<or> hd rest \<noteq> CHR ''/''" and "list_all plain_segment kept"
  shows "strip_trailing (canonicalize_loop (done_part lead kept @ rest) (length (done_part lead kept))) =
    rendered lead (foldl apply_segment kept (path_segments rest))"
  using assms
proof (induction "length rest" arbitrary: rest kept rule: less_induct)
  case less
  let ?pre = "done_part lead kept"
  show ?case
  proof (cases "rest = []")
    case True
    then show ?thesis
      by (simp add: canonicalize_loop_exit strip_trailing_done_part)
  next
    case False
    with less.prems(2) have "hd rest \<noteq> CHR ''/''"
      by simp
    with False obtain tok after where rest: "rest = tok @ after" and tok: "tok \<noteq> []" "CHR ''/'' \<notin> set tok"
      and after: "after = [] \<or> hd after = CHR ''/''" and shorter: "length after < length rest"
      by (rule segment_split)
    define rest' where "rest' = dropWhile (\<lambda>c. c = CHR ''/'') after"
    have "cstring after"
      using less.prems(1) unfolding rest by simp
    then have "cstring rest'"
      unfolding rest'_def cstring_def by (metis set_dropWhileD)
    moreover have "rest' = [] \<or> hd rest' \<noteq> CHR ''/''"
      unfolding rest'_def by (rule dropWhile_separators)
    moreover have "length rest' \<le> length after"
      unfolding rest'_def by (rule length_dropWhile_le)
    with shorter have "length rest' < length rest"
      by simp
    ultimately have rest': "cstring rest'" "rest' = [] \<or> hd rest' \<noteq> CHR ''/''"
        "length rest' < length rest"
      by blast+
    have segs: "path_segments rest = tok # path_segments rest'"
      unfolding rest rest'_def using tok after by (rule path_segments_split)
    have cs: "cstring (tok @ after)" "cstring tok"
      using less.prems(1) rest by simp_all
    show ?thesis
    proof (cases "tok = ''.''")
      case True
      have "canonicalize_step (?pre @ rest) (length ?pre) = (?pre @ rest', length ?pre)"
        unfolding rest True rest'_def using step_dot [OF after, of ?pre] by simp
      then have "canonicalize_loop (?pre @ rest) (length ?pre) =
          canonicalize_loop (?pre @ rest') (length ?pre)"
        by (rule canonicalize_loop_step [OF False less.prems(1)])
      moreover have "foldl apply_segment kept (path_segments rest) =
          foldl apply_segment kept (path_segments rest')"
        by (simp add: segs True apply_segment_def)
      ultimately show ?thesis
        using less.hyps [OF rest'(3,1,2) less.prems(3)] by simp
    next
      case dot: False
      show ?thesis
      proof (cases "tok = ''..''")
        case True
        have "canonicalize_step (?pre @ rest) (length ?pre) =
            (done_part lead (butlast kept) @ rest', length (done_part lead (butlast kept)))"
          unfolding rest True rest'_def by (rule step_dotdot [OF after less.prems(3)])
        then have "canonicalize_loop (?pre @ rest) (length ?pre) =
            canonicalize_loop (done_part lead (butlast kept) @ rest')
              (length (done_part lead (butlast kept)))"
          by (rule canonicalize_loop_step [OF False less.prems(1)])
        moreover have "foldl apply_segment kept (path_segments rest) =
            foldl apply_segment (butlast kept) (path_segments rest')"
          by (simp add: segs True apply_segment_def)
        ultimately show ?thesis
          using less.hyps [OF rest'(3,1,2) list_all_butlast [OF less.prems(3)]] by simp
      next
        case dotdot: False
        have kept: "foldl apply_segment kept (path_segments rest) =
            foldl apply_segment (kept @ [tok]) (path_segments rest')"
          using dot dotdot by (simp add: segs apply_segment_def)
        show ?thesis
        proof (cases after)
          case Nil
          then have "rest' = []" "rest = tok"
            by (simp_all add: rest'_def rest)
          have "canonicalize_step (?pre @ tok) (length ?pre) = (?pre @ tok, length (?pre @ tok))"
            using dot dotdot tok(2) cs(2) by (rule step_segment_last)
          then have "canonicalize_loop (?pre @ rest) (length ?pre) =
              canonicalize_loop (?pre @ tok) (length (?pre @ tok))"
            unfolding \<open>rest = tok\<close> using tok(1) cs(2) by (intro canonicalize_loop_step)
          then have "strip_trailing (canonicalize_loop (?pre @ rest) (length ?pre)) = ?pre @ tok"
            by (simp only: canonicalize_loop_exit strip_trailing_segment [OF tok])
          then show ?thesis
            by (simp add: kept \<open>rest' = []\<close> rendered_snoc)
        next
          case (Cons c a)
          with after have after': "after = CHR ''/'' # a"
            by simp
          then have r: "rest' = dropWhile (\<lambda>c. c = CHR ''/'') a"
            by (simp add: rest'_def)
          have "canonicalize_step (?pre @ tok @ CHR ''/'' # a) (length ?pre) =
              ((?pre @ tok @ ''/'') @ dropWhile (\<lambda>c. c = CHR ''/'') a, length (?pre @ tok @ ''/''))"
            using dot dotdot tok(2) cs(1) unfolding after' by (rule step_segment)
          then have "canonicalize_step (?pre @ rest) (length ?pre) =
              (done_part lead (kept @ [tok]) @ rest', length (done_part lead (kept @ [tok])))"
            by (simp only: rest after' r done_part_snoc)
          then have "canonicalize_loop (?pre @ rest) (length ?pre) =
              canonicalize_loop (done_part lead (kept @ [tok]) @ rest')
                (length (done_part lead (kept @ [tok])))"
            by (rule canonicalize_loop_step [OF False less.prems(1)])
          moreover have "list_all plain_segment (kept @ [tok])"
            using less.prems(3) tok by (simp add: plain_segment_def)
          ultimately show ?thesis
            using less.hyps [OF rest'(3,1,2), of "kept @ [tok]"] kept by simp
        qed
      qed
    qed
  qed
qed

section \<open>Canonical paths: the function and the canonical form\<close>

lemma split_tokens_without_delimiter: "t \<in> set (split_tokens d s) \<Longrightarrow> d \<notin> set t"
proof (induction s arbitrary: t)
  case Nil
  then show ?case
    by simp
next
  case (Cons c s)
  show ?case
  proof (cases "c = d")
    case True
    with Cons show ?thesis
      by auto
  next
    case False
    obtain u us where u: "split_tokens d s = u # us"
      by (cases "split_tokens d s") simp_all
    with Cons.prems False have "t = c # u \<or> t \<in> set us"
      by simp
    with Cons.IH [of u] Cons.IH [of t] u False show ?thesis
      by auto
  qed
qed

lemma path_segments_plain:
  assumes "cstring s"
  shows "list_all (\<lambda>seg. plain_segment seg \<and> cstring seg) (path_segments s)"
proof -
  have "plain_segment seg \<and> cstring seg" if "seg \<in> set (path_segments s)" for seg
  proof -
    from that have "seg \<noteq> []" "seg \<in> set (split_tokens (CHR ''/'') s)"
      by (simp_all add: path_segments_def)
    with split_tokens_without_delimiter [of seg "CHR ''/''" s]
      split_tokens_subset [of seg "CHR ''/''" s] assms
    show ?thesis
      by (auto simp: plain_segment_def cstring_def)
  qed
  then show ?thesis
    by (simp add: list_all_iff)
qed

lemma foldl_apply_segment_kept:
  assumes "list_all kept_segment kept"
    and "list_all (\<lambda>seg. plain_segment seg \<and> cstring seg) segs"
  shows "list_all kept_segment (foldl apply_segment kept segs)"
  using assms
proof (induction segs arbitrary: kept)
  case Nil
  then show ?case
    by simp
next
  case (Cons seg segs)
  have "list_all kept_segment (apply_segment kept seg)"
  proof (cases "seg = ''.'' \<or> seg = ''..''")
    case True
    with Cons.prems(1) show ?thesis
      by (auto simp: apply_segment_def list_all_butlast)
  next
    case False
    then have "kept_segment seg"
      using Cons.prems(2) by (simp add: kept_segment_def)
    with False Cons.prems(1) show ?thesis
      by (simp add: apply_segment_def)
  qed
  with Cons.IH [of "apply_segment kept seg"] Cons.prems(2) show ?case
    by simp
qed

lemma foldl_apply_segment_append:
  "list_all kept_segment segs \<Longrightarrow> foldl apply_segment kept segs = kept @ segs"
  by (induction segs arbitrary: kept) (simp_all add: apply_segment_def kept_segment_def)

lemma path_segments_join_segments:
  "list_all plain_segment kept \<Longrightarrow> path_segments (join_segments kept) = kept"
proof (induction kept rule: join_segments.induct)
  case 1
  show ?case
    by simp
next
  case (2 seg)
  then have "path_segments (seg @ []) = seg # path_segments (dropWhile (\<lambda>c. c = CHR ''/'') [])"
    by (intro path_segments_split) (simp_all add: plain_segment_def)
  then show ?case
    by simp
next
  case (3 seg s segs)
  let ?after = "CHR ''/'' # join_segments (s # segs)"
  have "path_segments (seg @ ?after) = seg # path_segments (dropWhile (\<lambda>c. c = CHR ''/'') ?after)"
    using 3 by (intro path_segments_split) (simp_all add: plain_segment_def)
  also have "path_segments (dropWhile (\<lambda>c. c = CHR ''/'') ?after) = path_segments (join_segments (s # segs))"
    by (simp only: path_segments_dropWhile path_segments_separator)
  finally show ?case
    using 3 by simp
qed

lemma join_segments_hd:
  assumes "kept \<noteq> []" and "list_all plain_segment kept"
  shows "join_segments kept \<noteq> [] \<and> hd (join_segments kept) \<noteq> CHR ''/''"
proof -
  obtain seg segs where kept: "kept = seg # segs"
    using assms(1) by (cases kept) auto
  with assms(2) obtain c t where seg: "seg = c # t" "c \<noteq> CHR ''/''"
    by (cases seg) (auto simp: plain_segment_def)
  show ?thesis
    unfolding kept using seg by (cases segs) simp_all
qed

lemma cstring_join_segments:
  "list_all cstring kept \<Longrightarrow> cstring (join_segments kept)"
  by (induction kept rule: join_segments.induct) simp_all

lemma list_all_mono: "list_all P xs \<Longrightarrow> (\<And>x. P x \<Longrightarrow> Q x) \<Longrightarrow> list_all Q xs"
  by (induction xs) simp_all

lemma canonical_form_body:
  "canonical_form path =
     rendered (path_body path \<noteq> [] \<and> hd (path_body path) = CHR ''/'')
       (foldl apply_segment [] (path_segments (path_body path)))"
  by (simp add: canonical_form_def path_body_def rendered_def Let_def)

lemma canonicalize_path_strip:
  "g_mount_spec_canonicalize_path path =
     strip_trailing (canonicalize_loop (CHR ''/'' # path_body path) start)"
proof -
  have "(if char_at path 0 \<noteq> CHR ''/'' then g_strconcat ''/'' path else g_strdup path) =
      CHR ''/'' # path_body path"
    by (cases path) (simp_all add: path_body_def g_strconcat_def g_strdup_def)
  then show ?thesis
    by (simp add: g_mount_spec_canonicalize_path_def strip_trailing_def Let_def split: prod.splits)
qed

lemma canonicalize_path_canonical_form:
  assumes "cstring path"
  shows "g_mount_spec_canonicalize_path path = canonical_form path"
proof -
  define body where "body = path_body path"
  have body: "cstring body"
    using assms by (cases path) (auto simp: body_def path_body_def)
  show ?thesis
  proof (cases "body \<noteq> [] \<and> hd body = CHR ''/''")
    case False
    then have "body = [] \<or> hd body \<noteq> CHR ''/''"
      by auto
    with body have "strip_trailing (canonicalize_loop (done_part False [] @ body)
        (length (done_part False []))) = rendered False (foldl apply_segment [] (path_segments body))"
      by (intro canonicalize_loop_segments) simp_all
    moreover have "rendered (body \<noteq> [] \<and> hd body = CHR ''/'') = rendered False"
      using False by (simp only:)
    ultimately show ?thesis
      by (simp add: canonicalize_path_strip canonical_form_body body_def [symmetric]
          done_part_Nil start_def)
  next
    case True
    then obtain b where b: "body = CHR ''/'' # b"
      by (cases body) auto
    define rest' where "rest' = dropWhile (\<lambda>c. c = CHR ''/'') b"
    have rest': "cstring rest'"
      using body unfolding rest'_def b cstring_def by (metis set_dropWhileD set_subset_Cons subsetD)
    have "canonicalize_step (''/'' @ [] @ CHR ''/'' # b) (length ''/'') =
        ((''/'' @ [] @ ''/'') @ dropWhile (\<lambda>c. c = CHR ''/'') b, length (''/'' @ [] @ ''/''))"
      using body unfolding b by (intro step_segment) simp_all
    then have "canonicalize_step (''/'' @ body) (length ''/'') =
        (done_part True [] @ rest', length (done_part True []))"
      by (simp add: b rest'_def done_part_Nil)
    then have "canonicalize_loop (''/'' @ body) (length ''/'') =
        canonicalize_loop (done_part True [] @ rest') (length (done_part True []))"
      using True body by (intro canonicalize_loop_step) simp_all
    moreover have "strip_trailing (canonicalize_loop (done_part True [] @ rest')
        (length (done_part True []))) = rendered True (foldl apply_segment [] (path_segments rest'))"
      using rest' dropWhile_separators [of b] by (intro canonicalize_loop_segments) (simp_all add: rest'_def)
    moreover have "path_segments rest' = path_segments body"
      by (simp add: rest'_def b)
    ultimately show ?thesis
      using True
      by (simp add: canonicalize_path_strip canonical_form_body body_def [symmetric] start_def)
  qed
qed

lemma canonical_form_kept:
  assumes "cstring path"
  shows "list_all kept_segment (foldl apply_segment [] (path_segments (path_body path)))"
proof -
  have "cstring (path_body path)"
    using assms by (cases path) (auto simp: path_body_def)
  then have "list_all (\<lambda>seg. plain_segment seg \<and> cstring seg) (path_segments (path_body path))"
    by (rule path_segments_plain)
  then show ?thesis
    by (intro foldl_apply_segment_kept) simp_all
qed

lemma canonical_form_rendered:
  assumes "list_all kept_segment kept"
  shows "canonical_form (rendered lead kept) = rendered lead kept"
proof (cases "kept = []")
  case True
  then show ?thesis
    by (simp add: rendered_def canonical_form_def)
next
  case False
  have plain: "list_all plain_segment kept"
    using assms by (rule list_all_mono) (simp add: kept_segment_def)
  have hd: "join_segments kept \<noteq> []" "hd (join_segments kept) \<noteq> CHR ''/''"
    using join_segments_hd [OF False plain] by simp_all
  have segs: "path_segments (join_segments kept) = kept"
    using plain by (rule path_segments_join_segments)
  have fold: "foldl apply_segment [] kept = kept"
    using foldl_apply_segment_append [OF assms, of "[]"] by simp
  show ?thesis
  proof (cases lead)
    case True
    then have "path_body (rendered lead kept) = CHR ''/'' # join_segments kept"
      using False by (simp add: rendered_def path_body_def)
    then show ?thesis
      using True by (simp add: canonical_form_body segs fold)
  next
    case False
    then have "path_body (rendered lead kept) = join_segments kept"
      using \<open>kept \<noteq> []\<close> by (simp add: rendered_def path_body_def)
    then show ?thesis
      using False hd by (simp add: canonical_form_body segs fold)
  qed
qed

lemma canonical_form_idempotent:
  "cstring path \<Longrightarrow> canonical_form (canonical_form path) = canonical_form path"
  unfolding canonical_form_body [of path] by (intro canonical_form_rendered canonical_form_kept)

lemma cstring_canonical_form:
  assumes "cstring path"
  shows "cstring (canonical_form path)"
proof -
  have "list_all cstring (foldl apply_segment [] (path_segments (path_body path)))"
    using canonical_form_kept [OF assms] by (rule list_all_mono) (simp add: kept_segment_def)
  then have "cstring (join_segments (foldl apply_segment [] (path_segments (path_body path))))"
    by (rule cstring_join_segments)
  then show ?thesis
    by (simp add: canonical_form_body rendered_def)
qed

text \<open>
  C5. On the path \<open>//a\<close> the function returns \<open>//a\<close>, and on \<open>///a//b\<close> it returns
  \<open>//a/b\<close>: a run of separators at the head of the path is collapsed to two, not to one.
\<close>

theorem canonicalize_path_leading_separators:
  "g_mount_spec_canonicalize_path ''//a'' = ''//a'' \<and>
   g_mount_spec_canonicalize_path ''///a//b'' = ''//a/b''"
  by code_simp

text \<open>The three examples of the description of the function.\<close>

lemma canonicalize_path_examples:
  "g_mount_spec_canonicalize_path ''a/./b/../c'' = ''/a/c''"
  "g_mount_spec_canonicalize_path ''/a//b///c/'' = ''/a/b/c''"
  "g_mount_spec_canonicalize_path ''../../x'' = ''/x''"
  by code_simp+

text \<open>
  C9. Canonicalizing is idempotent: for every path (a C string), canonicalizing the
  result of \<open>g_mount_spec_canonicalize_path\<close> gives that result again.
\<close>

theorem canonicalize_path_idempotent:
  assumes "cstring p"
  shows "g_mount_spec_canonicalize_path (g_mount_spec_canonicalize_path p) =
    g_mount_spec_canonicalize_path p"
proof -
  have "g_mount_spec_canonicalize_path p = canonical_form p"
    using assms by (rule canonicalize_path_canonical_form)
  moreover have "g_mount_spec_canonicalize_path (canonical_form p) = canonical_form (canonical_form p)"
    using assms by (intro canonicalize_path_canonical_form cstring_canonical_form)
  ultimately show ?thesis
    using assms by (simp add: canonical_form_idempotent)
qed

theorem canonicalize_path_idempotent_witness:
  "cstring ''//srv/./share/../x/'' \<and>
   g_mount_spec_canonicalize_path (g_mount_spec_canonicalize_path ''//srv/./share/../x/'') =
     g_mount_spec_canonicalize_path ''//srv/./share/../x/''"
  using canonicalize_path_idempotent [of "''//srv/./share/../x/''"] by (simp add: NUL_def)

end
